theory Spec2Isabelle
  imports Complex_Main "HOL-Library.Word" "HOL-Library.Log_Nat"
begin

unbundle bit_operations_syntax

section \<open>Machine types\<close>

type_synonym u8 = "8 word"
type_synonym u16 = "16 word"
type_synonym u32 = "32 word"
type_synonym u64 = "64 word"

section \<open>The type \<open>double\<close>\<close>

text \<open>
  A \<open>double\<close> is an IEEE 754 binary64 number: a finite value, given by the real number
  it denotes (\<open>Finite 0\<close> is \<open>+0.0\<close>), the negative zero, an infinity, or a NaN. The
  payload and the sign of a NaN are not told apart. The finite values of the format
  are the numbers \<open>m \<cdot> 2\<^sup>q\<close> with \<open>\<bar>m\<bar> < 2\<^sup>5\<^sup>3\<close> and \<open>- 1074 \<le> q \<le> 971\<close>.
\<close>

datatype double = Finite real | Neg_zero | Pos_inf | Neg_inf | NaN

text \<open>\<open>ilog2 x\<close> is \<open>\<lfloor>log\<^sub>2 x\<rfloor>\<close> for a positive \<open>x\<close>.\<close>

definition ilog2 :: "real \<Rightarrow> int" where
  "ilog2 x = (if 1 \<le> x then bitlen \<lfloor>x\<rfloor> - 1 else - bitlen (\<lceil>1 / x\<rceil> - 1))"

text \<open>Rounding to the nearest integer, a tie to the even one.\<close>

definition round_even :: "real \<Rightarrow> int" where
  "round_even y =
     (let n = \<lfloor>y\<rfloor>; r = y - of_int n
      in if r < 1 / 2 then n
         else if 1 / 2 < r then n + 1
         else if even n then n else n + 1)"

text \<open>
  Rounding of a real number to a \<open>double\<close> in the default mode (to nearest, ties to
  even): to a multiple of \<open>2\<^sup>q\<close> where \<open>q\<close> is the exponent of the last place, 52 below
  the exponent of the number and \<open>- 1074\<close> in the subnormal range. A result of magnitude
  \<open>2\<^sup>1\<^sup>0\<^sup>2\<^sup>4\<close> or more is an infinity; a negative number that rounds to zero gives the
  negative zero.
\<close>

definition double_round :: "real \<Rightarrow> double" where
  "double_round x =
     (let q = max (ilog2 \<bar>x\<bar>) (- 1022) - 52;
          y = of_int (round_even (x / 2 powi q)) * 2 powi q
      in if 2 ^ 1024 \<le> \<bar>y\<bar> then (if x < 0 then Neg_inf else Pos_inf)
         else if y = 0 \<and> x < 0 then Neg_zero
         else Finite y)"

fun sign_bit :: "double \<Rightarrow> bool" where
  "sign_bit (Finite x) = (x < 0)"
| "sign_bit Neg_zero = True"
| "sign_bit Neg_inf = True"
| "sign_bit Pos_inf = False"
| "sign_bit NaN = False"

fun is_zero :: "double \<Rightarrow> bool" where
  "is_zero (Finite x) = (x = 0)"
| "is_zero Neg_zero = True"
| "is_zero _ = False"

fun is_inf :: "double \<Rightarrow> bool" where
  "is_inf Pos_inf = True"
| "is_inf Neg_inf = True"
| "is_inf _ = False"

fun double_value :: "double \<Rightarrow> real" where
  "double_value (Finite x) = x"
| "double_value _ = 0"

definition signed_zero :: "bool \<Rightarrow> double" where
  "signed_zero neg = (if neg then Neg_zero else Finite 0)"

definition signed_inf :: "bool \<Rightarrow> double" where
  "signed_inf neg = (if neg then Neg_inf else Pos_inf)"

text \<open>
  The operators \<open>+\<close>, \<open>*\<close>, \<open>/\<close> and \<open>==\<close> on \<open>double\<close>: the special cases of the
  standard, and otherwise the exact result, rounded.
\<close>

definition double_add :: "double \<Rightarrow> double \<Rightarrow> double" where
  "double_add a b =
     (if a = NaN \<or> b = NaN then NaN
      else if is_inf a then (if is_inf b \<and> a \<noteq> b then NaN else a)
      else if is_inf b then b
      else if is_zero a \<and> is_zero b then signed_zero (sign_bit a \<and> sign_bit b)
      else double_round (double_value a + double_value b))"

definition double_mul :: "double \<Rightarrow> double \<Rightarrow> double" where
  "double_mul a b =
     (if a = NaN \<or> b = NaN then NaN
      else if is_inf a \<or> is_inf b
      then (if is_zero a \<or> is_zero b then NaN else signed_inf (sign_bit a \<noteq> sign_bit b))
      else if is_zero a \<or> is_zero b then signed_zero (sign_bit a \<noteq> sign_bit b)
      else double_round (double_value a * double_value b))"

definition double_div :: "double \<Rightarrow> double \<Rightarrow> double" where
  "double_div a b =
     (if a = NaN \<or> b = NaN then NaN
      else if is_inf a then (if is_inf b then NaN else signed_inf (sign_bit a \<noteq> sign_bit b))
      else if is_inf b then signed_zero (sign_bit a \<noteq> sign_bit b)
      else if is_zero b then (if is_zero a then NaN else signed_inf (sign_bit a \<noteq> sign_bit b))
      else if is_zero a then signed_zero (sign_bit a \<noteq> sign_bit b)
      else double_round (double_value a / double_value b))"

definition double_eq :: "double \<Rightarrow> double \<Rightarrow> bool" where
  "double_eq a b \<longleftrightarrow> a \<noteq> NaN \<and> b \<noteq> NaN \<and> (a = b \<or> (is_zero a \<and> is_zero b))"

text \<open>
  The conversion of a \<open>uint64_t\<close> to \<open>double\<close> rounds. The conversion of a \<open>double\<close>
  to \<open>uint64_t\<close> truncates towards zero; it has no defined behaviour when the truncated
  value is not a \<open>uint64_t\<close>, which is the result \<open>None\<close>.
\<close>

definition double_of_u64 :: "u64 \<Rightarrow> double" where
  "double_of_u64 n = double_round (of_int (uint n))"

fun u64_of_double :: "double \<Rightarrow> u64 option" where
  "u64_of_double (Finite x) =
     (let n = (if 0 \<le> x then \<lfloor>x\<rfloor> else \<lceil>x\<rceil>)
      in if 0 \<le> n \<and> n < 2 ^ 64 then Some (word_of_int n) else None)"
| "u64_of_double Neg_zero = Some 0"
| "u64_of_double _ = None"

text \<open>
  The doubles 0.1 and 0.2 (the nearest doubles to the decimal fractions), for the
  example of a midpoint that is not exact.
\<close>

definition double_0_1 :: double where
  "double_0_1 = Finite (3602879701896397 / 2 ^ 55)"

definition double_0_2 :: double where
  "double_0_2 = Finite (3602879701896397 / 2 ^ 54)"

section \<open>LatencyTracker (latency\_tracker.h, cache.cpp)\<close>

text \<open>
  The members \<open>sample_count_\<close>, \<open>sum_\<close>, \<open>min_\<close>, \<open>max_\<close>, \<open>overflow_count_\<close>,
  \<open>histogram_\<close>, \<open>ring_buffer_\<close> and \<open>write_index_\<close> of the class become the fields of a
  record (prefixed \<open>lt_\<close> where the member name is a HOL constant or ends in an
  underscore). All of them are \<open>std::atomic<uint64_t>\<close>: 64-bit words whose \<open>fetch_add\<close>
  wraps. The model is the sequential behaviour of one thread. The array
  \<open>ring_buffer_\<close> (2^20 cells) is a function from the index to the cell.
\<close>

definition RING_BUFFER_SIZE :: nat where "RING_BUFFER_SIZE = 2 ^ 20"
definition NUM_BUCKETS :: nat where "NUM_BUCKETS = 1000"
definition BUCKET_WIDTH_NS :: u64 where "BUCKET_WIDTH_NS = 1000"
definition MAX_TRACKED_NS :: u64 where "MAX_TRACKED_NS = of_nat NUM_BUCKETS * BUCKET_WIDTH_NS"
definition UINT64_MAX :: u64 where "UINT64_MAX = - 1"

record LatencyStats =
  st_min :: u64
  st_max :: u64
  st_mean :: u64
  st_p50 :: u64
  st_p95 :: u64
  st_p99 :: u64
  st_p999 :: u64
  st_sample_count :: u64

text \<open>The default member initialisers of \<open>struct LatencyStats\<close>.\<close>

definition LatencyStats_default :: LatencyStats where
  "LatencyStats_default =
     \<lparr>st_min = UINT64_MAX, st_max = 0, st_mean = 0, st_p50 = 0, st_p95 = 0,
      st_p99 = 0, st_p999 = 0, st_sample_count = 0\<rparr>"

record LatencyTracker =
  ring_buffer :: "nat \<Rightarrow> u64"
  write_index :: u64
  histogram :: "u64 list"
  overflow_count :: u64
  lt_sample_count :: u64
  lt_sum :: u64
  lt_min :: u64
  lt_max :: u64

text \<open>
  \<open>LatencyTracker::record\<close>. The two compare-exchange loops store the sample when it
  is below the minimum, respectively above the maximum; with one thread the exchange
  succeeds at once.
\<close>

definition record_sample :: "u64 \<Rightarrow> LatencyTracker \<Rightarrow> LatencyTracker" where
  "record_sample latency_ns t =
     (let t1 = t\<lparr>lt_sample_count := lt_sample_count t + 1\<rparr>;
          t2 = t1\<lparr>lt_sum := lt_sum t1 + latency_ns\<rparr>;
          t3 = (if latency_ns < lt_min t2 then t2\<lparr>lt_min := latency_ns\<rparr> else t2);
          t4 = (if latency_ns > lt_max t3 then t3\<lparr>lt_max := latency_ns\<rparr> else t3);
          t5 = (if latency_ns < MAX_TRACKED_NS
                then (let bucket = unat (latency_ns div BUCKET_WIDTH_NS)
                      in t4\<lparr>histogram := (histogram t4)[bucket := histogram t4 ! bucket + 1]\<rparr>)
                else t4\<lparr>overflow_count := overflow_count t4 + 1\<rparr>);
          idx = write_index t5
      in t5\<lparr>write_index := idx + 1,
             ring_buffer := (ring_buffer t5)(unat idx mod RING_BUFFER_SIZE := latency_ns)\<rparr>)"

text \<open>
  The scan of \<open>percentile_from_histogram\<close>: the loop over the buckets from index \<open>i\<close>
  on, with the running \<open>cumulative\<close> count. It returns the index of the first bucket
  at which the cumulative count is at least \<open>target\<close>, or \<open>None\<close> when the loop ends
  without one.
\<close>

fun scan_buckets :: "u64 list \<Rightarrow> nat \<Rightarrow> u64 \<Rightarrow> u64 \<Rightarrow> nat option" where
  "scan_buckets [] i cumulative target = None"
| "scan_buckets (c # cs) i cumulative target =
     (let cumulative' = cumulative + c
      in if cumulative' \<ge> target then Some i
         else scan_buckets cs (Suc i) cumulative' target)"

text \<open>
  \<open>static_cast<uint64_t>((percentile / 100.0) * total)\<close>: the quotient and the
  product are computed in \<open>double\<close> (\<open>total\<close> is converted to \<open>double\<close> for the
  product) and the conversion to \<open>uint64_t\<close> truncates towards zero. The result is
  \<open>None\<close> where the conversion has no defined behaviour.
\<close>

definition percentile_target :: "double \<Rightarrow> u64 \<Rightarrow> u64 option" where
  "percentile_target percentile total_n =
     u64_of_double (double_mul (double_div percentile (Finite 100)) (double_of_u64 total_n))"

definition bucket_midpoint :: "nat \<Rightarrow> u64" where
  "bucket_midpoint i = (of_nat i * BUCKET_WIDTH_NS) + (BUCKET_WIDTH_NS div 2)"

definition percentile_from_histogram :: "double \<Rightarrow> LatencyTracker \<Rightarrow> u64 option" where
  "percentile_from_histogram percentile t =
     (let total_n = lt_sample_count t
      in if total_n = 0 then Some 0
         else (case percentile_target percentile total_n of
                 None \<Rightarrow> None
               | Some target \<Rightarrow>
                   (case scan_buckets (take NUM_BUCKETS (histogram t)) 0 0 target of
                      Some i \<Rightarrow> Some (bucket_midpoint i)
                    | None \<Rightarrow> Some (lt_max t))))"

text \<open>
  \<open>LatencyTracker::get_stats\<close>. The literals 50.0, 95.0 and 99.0 are doubles; 99.9 is
  the double nearest to the decimal fraction.
\<close>

definition get_stats :: "LatencyTracker \<Rightarrow> LatencyStats option" where
  "get_stats t =
     (let stats = LatencyStats_default\<lparr>st_sample_count := lt_sample_count t\<rparr>
      in if st_sample_count stats = 0 then Some (stats\<lparr>st_min := 0\<rparr>)
         else (case (percentile_from_histogram (Finite 50) t,
                     percentile_from_histogram (Finite 95) t,
                     percentile_from_histogram (Finite 99) t,
                     percentile_from_histogram (double_round (999 / 10)) t) of
                 (Some p50, Some p95, Some p99, Some p999) \<Rightarrow>
                   Some (stats\<lparr>st_min := lt_min t,
                               st_max := lt_max t,
                               st_mean := lt_sum t div st_sample_count stats,
                               st_p50 := p50, st_p95 := p95, st_p99 := p99,
                               st_p999 := p999\<rparr>)
               | _ \<Rightarrow> None))"

text \<open>\<open>LatencyTracker::reset\<close> stores into every member and every array cell.\<close>

definition reset_tracker :: "LatencyTracker \<Rightarrow> LatencyTracker" where
  "reset_tracker t =
     t\<lparr>lt_sample_count := 0, lt_sum := 0, lt_min := UINT64_MAX, lt_max := 0,
       overflow_count := 0,
       histogram := map (\<lambda>_. 0) (histogram t),
       ring_buffer := (\<lambda>_. 0),
       write_index := 0\<rparr>"

text \<open>The constructor: the members' initialisers, then \<open>reset()\<close>.\<close>

definition LatencyTracker_new :: LatencyTracker where
  "LatencyTracker_new =
     reset_tracker
       \<lparr>ring_buffer = (\<lambda>_. 0), write_index = 0, histogram = replicate NUM_BUCKETS 0,
        overflow_count = 0, lt_sample_count = 0, lt_sum = 0, lt_min = UINT64_MAX,
        lt_max = 0\<rparr>"

text \<open>
  The percentile query as the specification words it: the target is the ceiling of
  \<open>p \<cdot> total\<close> (\<open>p\<close> the fraction \<open>percentile / 100\<close>), and the answer is the midpoint of
  the first bucket whose cumulative count reaches it, the observed maximum when that
  point lies in the overflow bucket.
\<close>

definition spec_percentile_target :: "real \<Rightarrow> u64 \<Rightarrow> u64" where
  "spec_percentile_target percentile total_n =
     word_of_int \<lceil>(percentile / 100) * of_nat (unat total_n)\<rceil>"

definition spec_percentile :: "real \<Rightarrow> LatencyTracker \<Rightarrow> u64" where
  "spec_percentile percentile t =
     (case scan_buckets (take NUM_BUCKETS (histogram t)) 0 0
             (spec_percentile_target percentile (lt_sample_count t)) of
        Some i \<Rightarrow> bucket_midpoint i
      | None \<Rightarrow> lt_max t)"

text \<open>
  The running count the scan compares with the target: the sum (a 64-bit word, as
  \<open>cumulative\<close> is) of the buckets \<open>0 .. i\<close>.
\<close>

definition cumulative_count :: "u64 list \<Rightarrow> nat \<Rightarrow> u64" where
  "cumulative_count hs i = sum_list (take (Suc i) hs)"

text \<open>
  Scenario E6 of the specification: the samples 1000, 2000 and 3000 ns recorded into a
  new tracker.
\<close>

definition e6_tracker :: LatencyTracker where
  "e6_tracker =
     record_sample 3000 (record_sample 2000 (record_sample 1000 LatencyTracker_new))"

text \<open>A new tracker with the one sample 5000 ns.\<close>

definition single_tracker :: LatencyTracker where
  "single_tracker = record_sample 5000 LatencyTracker_new"

section \<open>SymbolCache (cache.h, cache.cpp)\<close>

text \<open>
  \<open>struct MarketState\<close> and \<open>struct SymbolEntry\<close>. Prices are \<open>double\<close>, quantities
  32-bit, the time stamp, the update count and the sequence counter 64-bit words.
\<close>

definition MAX_SYMBOLS :: nat where "MAX_SYMBOLS = 500"

record MarketState =
  best_bid :: double
  best_ask :: double
  bid_quantity :: u32
  ask_quantity :: u32
  last_traded_price :: double
  last_traded_quantity :: u32
  last_update_time :: u64
  update_count :: u64
  opening_price :: double

definition MarketState_default :: MarketState where
  "MarketState_default =
     \<lparr>best_bid = Finite 0, best_ask = Finite 0, bid_quantity = 0, ask_quantity = 0,
      last_traded_price = Finite 0, last_traded_quantity = 0, last_update_time = 0,
      update_count = 0, opening_price = Finite 0\<rparr>"

record SymbolEntry =
  sequence :: u64
  state :: MarketState

text \<open>
  A store of a writer to the memory of the cache: to the sequence counter of the entry
  at an index, or to one field of its \<open>state\<close>.
\<close>

datatype field_store =
    Set_best_bid double
  | Set_bid_quantity u32
  | Set_best_ask double
  | Set_ask_quantity u32
  | Set_last_traded_price double
  | Set_last_traded_quantity u32
  | Set_last_update_time u64
  | Set_update_count u64
  | Set_opening_price double

datatype store = Seq_store nat u64 | State_store nat field_store

text \<open>
  The cache: the members \<open>num_symbols_\<close> and \<open>entries_\<close>, and the stores that the
  writers have made to the entries since the last \<open>reset\<close>, in program order. Every
  store to a counter is a release store and the stores to the fields lie between the
  two release fences, so this is the order in which another thread sees them.
\<close>

record SymbolCache =
  num_symbols :: nat
  entries :: "SymbolEntry list"
  store_log :: "store list"

text \<open>
  \<open>entries_\<close> is a \<open>std::array\<close> of \<open>MAX_SYMBOLS\<close> entries and the constructor bounds
  \<open>num_symbols_\<close> by \<open>MAX_SYMBOLS\<close>, so every index below \<open>num_symbols_\<close> is in range.
\<close>

definition cache_wf :: "SymbolCache \<Rightarrow> bool" where
  "cache_wf c \<longleftrightarrow> length (entries c) = MAX_SYMBOLS \<and> num_symbols c \<le> MAX_SYMBOLS"

definition reset_cache :: "SymbolCache \<Rightarrow> SymbolCache" where
  "reset_cache c =
     c\<lparr>entries := map (\<lambda>_. \<lparr>sequence = 0, state = MarketState_default\<rparr>) (entries c),
       store_log := []\<rparr>"

definition SymbolCache_new :: "nat \<Rightarrow> SymbolCache" where
  "SymbolCache_new n =
     reset_cache
       \<lparr>num_symbols = min n MAX_SYMBOLS,
        entries = replicate MAX_SYMBOLS \<lparr>sequence = 0, state = MarketState_default\<rparr>,
        store_log = []\<rparr>"

text \<open>The effect of a store on the memory, and a store made by a writer.\<close>

fun assign :: "field_store \<Rightarrow> MarketState \<Rightarrow> MarketState" where
  "assign (Set_best_bid v) st = st\<lparr>best_bid := v\<rparr>"
| "assign (Set_bid_quantity v) st = st\<lparr>bid_quantity := v\<rparr>"
| "assign (Set_best_ask v) st = st\<lparr>best_ask := v\<rparr>"
| "assign (Set_ask_quantity v) st = st\<lparr>ask_quantity := v\<rparr>"
| "assign (Set_last_traded_price v) st = st\<lparr>last_traded_price := v\<rparr>"
| "assign (Set_last_traded_quantity v) st = st\<lparr>last_traded_quantity := v\<rparr>"
| "assign (Set_last_update_time v) st = st\<lparr>last_update_time := v\<rparr>"
| "assign (Set_update_count v) st = st\<lparr>update_count := v\<rparr>"
| "assign (Set_opening_price v) st = st\<lparr>opening_price := v\<rparr>"

fun apply_store :: "store \<Rightarrow> SymbolEntry list \<Rightarrow> SymbolEntry list" where
  "apply_store (Seq_store i v) es = es[i := (es ! i)\<lparr>sequence := v\<rparr>]"
| "apply_store (State_store i f) es = es[i := (es ! i)\<lparr>state := assign f (state (es ! i))\<rparr>]"

definition perform :: "store \<Rightarrow> SymbolCache \<Rightarrow> SymbolCache" where
  "perform s c = c\<lparr>entries := apply_store s (entries c), store_log := store_log c @ [s]\<rparr>"

definition begin_write :: "u16 \<Rightarrow> SymbolCache \<Rightarrow> SymbolCache" where
  "begin_write symbol_id c =
     (if unat symbol_id \<ge> num_symbols c then c
      else (let entry = entries c ! unat symbol_id;
                seq = sequence entry
            in perform (Seq_store (unat symbol_id) (seq + 1)) c))"

definition end_write :: "u16 \<Rightarrow> SymbolCache \<Rightarrow> SymbolCache" where
  "end_write symbol_id c =
     (if unat symbol_id \<ge> num_symbols c then c
      else (let entry = entries c ! unat symbol_id;
                seq = sequence entry
            in perform (Seq_store (unat symbol_id) (seq + 1)) c))"

text \<open>
  The statements between \<open>begin_write\<close> and \<open>end_write\<close> in each writer, on the
  \<open>state\<close> of the entry at index \<open>i\<close>, in the order of the source. \<open>update_count++\<close>
  and the test of \<open>opening_price\<close> read the entry.
\<close>

definition quote_fields ::
  "nat \<Rightarrow> double \<Rightarrow> u32 \<Rightarrow> double \<Rightarrow> u32 \<Rightarrow> u64 \<Rightarrow> SymbolCache \<Rightarrow> SymbolCache" where
  "quote_fields i bid_price bid_qty ask_price ask_qty timestamp c =
     (let c1 = perform (State_store i (Set_best_bid bid_price)) c;
          c2 = perform (State_store i (Set_bid_quantity bid_qty)) c1;
          c3 = perform (State_store i (Set_best_ask ask_price)) c2;
          c4 = perform (State_store i (Set_ask_quantity ask_qty)) c3;
          c5 = perform (State_store i (Set_last_update_time timestamp)) c4;
          c6 = perform (State_store i
                 (Set_update_count (update_count (state (entries c5 ! i)) + 1))) c5
      in if double_eq (opening_price (state (entries c6 ! i))) (Finite 0)
         then perform (State_store i
                (Set_opening_price (double_div (double_add bid_price ask_price) (Finite 2)))) c6
         else c6)"

definition trade_fields :: "nat \<Rightarrow> double \<Rightarrow> u32 \<Rightarrow> u64 \<Rightarrow> SymbolCache \<Rightarrow> SymbolCache" where
  "trade_fields i price_v quantity timestamp c =
     (let c1 = perform (State_store i (Set_last_traded_price price_v)) c;
          c2 = perform (State_store i (Set_last_traded_quantity quantity)) c1;
          c3 = perform (State_store i (Set_last_update_time timestamp)) c2;
          c4 = perform (State_store i
                 (Set_update_count (update_count (state (entries c3 ! i)) + 1))) c3
      in if double_eq (opening_price (state (entries c4 ! i))) (Finite 0)
         then perform (State_store i (Set_opening_price price_v)) c4
         else c4)"

definition bid_fields :: "nat \<Rightarrow> double \<Rightarrow> u32 \<Rightarrow> u64 \<Rightarrow> SymbolCache \<Rightarrow> SymbolCache" where
  "bid_fields i price_v quantity timestamp c =
     (let c1 = perform (State_store i (Set_best_bid price_v)) c;
          c2 = perform (State_store i (Set_bid_quantity quantity)) c1;
          c3 = perform (State_store i (Set_last_update_time timestamp)) c2
      in perform (State_store i
           (Set_update_count (update_count (state (entries c3 ! i)) + 1))) c3)"

definition ask_fields :: "nat \<Rightarrow> double \<Rightarrow> u32 \<Rightarrow> u64 \<Rightarrow> SymbolCache \<Rightarrow> SymbolCache" where
  "ask_fields i price_v quantity timestamp c =
     (let c1 = perform (State_store i (Set_best_ask price_v)) c;
          c2 = perform (State_store i (Set_ask_quantity quantity)) c1;
          c3 = perform (State_store i (Set_last_update_time timestamp)) c2
      in perform (State_store i
           (Set_update_count (update_count (state (entries c3 ! i)) + 1))) c3)"

definition update_quote ::
  "u16 \<Rightarrow> double \<Rightarrow> u32 \<Rightarrow> double \<Rightarrow> u32 \<Rightarrow> u64 \<Rightarrow> SymbolCache \<Rightarrow> SymbolCache" where
  "update_quote symbol_id bid_price bid_qty ask_price ask_qty timestamp c =
     (if unat symbol_id \<ge> num_symbols c then c
      else end_write symbol_id
             (quote_fields (unat symbol_id) bid_price bid_qty ask_price ask_qty timestamp
                (begin_write symbol_id c)))"

definition update_trade :: "u16 \<Rightarrow> double \<Rightarrow> u32 \<Rightarrow> u64 \<Rightarrow> SymbolCache \<Rightarrow> SymbolCache" where
  "update_trade symbol_id price_v quantity timestamp c =
     (if unat symbol_id \<ge> num_symbols c then c
      else end_write symbol_id
             (trade_fields (unat symbol_id) price_v quantity timestamp
                (begin_write symbol_id c)))"

definition update_bid :: "u16 \<Rightarrow> double \<Rightarrow> u32 \<Rightarrow> u64 \<Rightarrow> SymbolCache \<Rightarrow> SymbolCache" where
  "update_bid symbol_id price_v quantity timestamp c =
     (if unat symbol_id \<ge> num_symbols c then c
      else end_write symbol_id
             (bid_fields (unat symbol_id) price_v quantity timestamp
                (begin_write symbol_id c)))"

definition update_ask :: "u16 \<Rightarrow> double \<Rightarrow> u32 \<Rightarrow> u64 \<Rightarrow> SymbolCache \<Rightarrow> SymbolCache" where
  "update_ask symbol_id price_v quantity timestamp c =
     (if unat symbol_id \<ge> num_symbols c then c
      else end_write symbol_id
             (ask_fields (unat symbol_id) price_v quantity timestamp
                (begin_write symbol_id c)))"

text \<open>The four writer operations as one type, and a run of them from a cache.\<close>

datatype writer_op =
    Quote_op u16 double u32 double u32 u64
  | Trade_op u16 double u32 u64
  | Bid_op u16 double u32 u64
  | Ask_op u16 double u32 u64

fun op_symbol :: "writer_op \<Rightarrow> u16" where
  "op_symbol (Quote_op s _ _ _ _ _) = s"
| "op_symbol (Trade_op s _ _ _) = s"
| "op_symbol (Bid_op s _ _ _) = s"
| "op_symbol (Ask_op s _ _ _) = s"

fun apply_op :: "writer_op \<Rightarrow> SymbolCache \<Rightarrow> SymbolCache" where
  "apply_op (Quote_op s bp bq ap aq ts) c = update_quote s bp bq ap aq ts c"
| "apply_op (Trade_op s p q ts) c = update_trade s p q ts c"
| "apply_op (Bid_op s p q ts) c = update_bid s p q ts c"
| "apply_op (Ask_op s p q ts) c = update_ask s p q ts c"

fun apply_ops :: "writer_op list \<Rightarrow> SymbolCache \<Rightarrow> SymbolCache" where
  "apply_ops [] c = c"
| "apply_ops (w # ws) c = apply_ops ws (apply_op w c)"

text \<open>The entry of a symbol, for the statements below.\<close>

definition entry_of :: "SymbolCache \<Rightarrow> u16 \<Rightarrow> SymbolEntry" where
  "entry_of c symbol_id = entries c ! unat symbol_id"

text \<open>
  The stores that a writer operation adds to the log of a cache, and the cache after
  a list of stores has been made one after the other.
\<close>

definition written :: "writer_op \<Rightarrow> SymbolCache \<Rightarrow> store list" where
  "written w c = drop (length (store_log c)) (store_log (apply_op w c))"

fun replay :: "store list \<Rightarrow> SymbolCache \<Rightarrow> SymbolCache" where
  "replay [] c = c"
| "replay (s # ss) c = replay ss (perform s c)"

fun is_field_store :: "nat \<Rightarrow> store \<Rightarrow> bool" where
  "is_field_store i (State_store j f) = (j = i)"
| "is_field_store i (Seq_store j v) = False"

section \<open>MemoryPool (memory\_pool.h, memory\_pool.cpp)\<close>

text \<open>
  Pointers are addresses (natural numbers), \<open>nullptr\<close> is 0. The arena is the range
  of \<open>block_size_ * num_blocks_\<close> bytes from \<open>aligned_base_\<close>. The only memory the pool
  reads or writes is the \<open>next\<close> field at the start of a block: \<open>next_of\<close> maps the
  address of a block to the pointer stored there. \<open>allocated_count_\<close> is an atomic
  \<open>size_t\<close>, a 64-bit word whose \<open>fetch_sub\<close> wraps. The model is the behaviour of one
  thread, in which each compare-exchange succeeds at its first attempt.
\<close>

definition CACHE_LINE_SIZE :: nat where "CACHE_LINE_SIZE = 64"

text \<open>\<open>sizeof(FreeNode)\<close>: one pointer, aligned to the cache line.\<close>

definition sizeof_FreeNode :: nat where "sizeof_FreeNode = 64"

record MemoryPool =
  block_size :: nat
  num_blocks :: nat
  aligned_base :: nat
  free_list :: nat
  next_of :: "nat \<Rightarrow> nat"
  allocated_count :: u64

text \<open>\<open>(x + CACHE_LINE_SIZE - 1) & ~(CACHE_LINE_SIZE - 1)\<close>.\<close>

definition align_up :: "nat \<Rightarrow> nat" where
  "align_up x = ((x + CACHE_LINE_SIZE - 1) div CACHE_LINE_SIZE) * CACHE_LINE_SIZE"

text \<open>\<open>MemoryPool::reset\<close>: the loop threads the head and the stored pointers.\<close>

definition reset_pool :: "MemoryPool \<Rightarrow> MemoryPool" where
  "reset_pool pool =
     (let (head, nxt) =
            fold (\<lambda>i (head, nxt).
                    (let node = aligned_base pool + i * block_size pool
                     in (node, nxt(node := head))))
                 [0 ..< num_blocks pool] (0, next_of pool)
      in pool\<lparr>allocated_count := 0, next_of := nxt, free_list := head\<rparr>)"

text \<open>
  The constructor; \<open>storage\<close> is the address of the array that \<open>make_unique\<close> returns.
\<close>

definition MemoryPool_new :: "nat \<Rightarrow> nat \<Rightarrow> nat \<Rightarrow> MemoryPool" where
  "MemoryPool_new block_size_arg num_blocks_arg storage =
     reset_pool
       \<lparr>block_size = align_up (max block_size_arg sizeof_FreeNode),
        num_blocks = num_blocks_arg,
        aligned_base = align_up storage,
        free_list = 0,
        next_of = (\<lambda>_. 0),
        allocated_count = 0\<rparr>"

definition allocate :: "MemoryPool \<Rightarrow> nat \<times> MemoryPool" where
  "allocate pool =
     (let node = free_list pool
      in if node \<noteq> 0
         then (node, pool\<lparr>free_list := next_of pool node,
                           allocated_count := allocated_count pool + 1\<rparr>)
         else (0, pool))"

definition deallocate :: "nat \<Rightarrow> MemoryPool \<Rightarrow> MemoryPool" where
  "deallocate ptr pool =
     (if ptr = 0 then pool
      else if ptr < aligned_base pool
              \<or> ptr \<ge> aligned_base pool + (block_size pool * num_blocks pool)
      then pool
      else pool\<lparr>next_of := (next_of pool)(ptr := free_list pool),
                free_list := ptr,
                allocated_count := allocated_count pool - 1\<rparr>)"

section \<open>Wire protocol (protocol.h)\<close>

definition HEADER_SIZE :: nat where "HEADER_SIZE = 16"
definition TRADE_PAYLOAD_SIZE :: nat where "TRADE_PAYLOAD_SIZE = 12"
definition QUOTE_PAYLOAD_SIZE :: nat where "QUOTE_PAYLOAD_SIZE = 24"
definition CHECKSUM_SIZE :: nat where "CHECKSUM_SIZE = 4"
definition TRADE_MSG_SIZE :: nat where
  "TRADE_MSG_SIZE = HEADER_SIZE + TRADE_PAYLOAD_SIZE + CHECKSUM_SIZE"
definition QUOTE_MSG_SIZE :: nat where
  "QUOTE_MSG_SIZE = HEADER_SIZE + QUOTE_PAYLOAD_SIZE + CHECKSUM_SIZE"
definition HEARTBEAT_MSG_SIZE :: nat where
  "HEARTBEAT_MSG_SIZE = HEADER_SIZE + CHECKSUM_SIZE"

text \<open>\<open>enum class MessageType : uint16_t\<close>, as the values that travel in the header.\<close>

definition TRADE :: u16 where "TRADE = 1"
definition QUOTE :: u16 where "QUOTE = 2"
definition HEARTBEAT :: u16 where "HEARTBEAT = 3"

text \<open>
  The packed structs. A \<open>double\<close> on the wire is its 64-bit pattern: the codec copies
  bytes and never computes with it.
\<close>

record MessageHeader =
  message_type :: u16
  sequence_number :: u32
  timestamp_ns :: u64
  symbol_id :: u16

record TradePayload =
  tp_price :: u64
  tp_quantity :: u32

record QuotePayload =
  qp_bid_price :: u64
  qp_bid_quantity :: u32
  qp_ask_price :: u64
  qp_ask_quantity :: u32

text \<open>
  \<open>std::memcpy\<close> between a packed struct and a byte buffer on a little-endian host:
  \<open>le_bytes n w\<close> are the \<open>n\<close> bytes of \<open>w\<close>, least significant first, and \<open>le_word\<close>
  reads them back.
\<close>

fun le_bytes :: "nat \<Rightarrow> 'a::len word \<Rightarrow> u8 list" where
  "le_bytes 0 w = []"
| "le_bytes (Suc n) w = ucast w # le_bytes n (drop_bit 8 w)"

fun le_word :: "u8 list \<Rightarrow> 'a::len word" where
  "le_word [] = 0"
| "le_word (b # bs) = ucast b OR push_bit 8 (le_word bs)"

definition header_bytes :: "MessageHeader \<Rightarrow> u8 list" where
  "header_bytes h =
     le_bytes 2 (message_type h) @ le_bytes 4 (sequence_number h)
     @ le_bytes 8 (timestamp_ns h) @ le_bytes 2 (symbol_id h)"

definition trade_payload_bytes :: "TradePayload \<Rightarrow> u8 list" where
  "trade_payload_bytes p = le_bytes 8 (tp_price p) @ le_bytes 4 (tp_quantity p)"

definition quote_payload_bytes :: "QuotePayload \<Rightarrow> u8 list" where
  "quote_payload_bytes p =
     le_bytes 8 (qp_bid_price p) @ le_bytes 4 (qp_bid_quantity p)
     @ le_bytes 8 (qp_ask_price p) @ le_bytes 4 (qp_ask_quantity p)"

text \<open>
  \<open>reinterpret_cast<const MessageHeader*>\<close> and the payload casts: the fields at their
  packed offsets in the bytes from the start of the struct.
\<close>

definition read_header :: "u8 list \<Rightarrow> MessageHeader" where
  "read_header bs =
     \<lparr>message_type = le_word (take 2 bs),
      sequence_number = le_word (take 4 (drop 2 bs)),
      timestamp_ns = le_word (take 8 (drop 6 bs)),
      symbol_id = le_word (take 2 (drop 14 bs))\<rparr>"

definition read_trade_payload :: "u8 list \<Rightarrow> TradePayload" where
  "read_trade_payload bs =
     \<lparr>tp_price = le_word (take 8 bs), tp_quantity = le_word (take 4 (drop 8 bs))\<rparr>"

definition read_quote_payload :: "u8 list \<Rightarrow> QuotePayload" where
  "read_quote_payload bs =
     \<lparr>qp_bid_price = le_word (take 8 bs),
      qp_bid_quantity = le_word (take 4 (drop 8 bs)),
      qp_ask_price = le_word (take 8 (drop 12 bs)),
      qp_ask_quantity = le_word (take 4 (drop 20 bs))\<rparr>"

text \<open>
  \<open>calculate_checksum(data, len)\<close> on the \<open>len\<close> bytes at \<open>data\<close>. The first loop takes
  four bytes at a time while four remain; the second folds each remaining byte in at
  the shift \<open>(i % 4) * 8\<close>. The index \<open>i\<close> and the running checksum are threaded.
\<close>

fun checksum_rest :: "nat \<Rightarrow> u32 \<Rightarrow> u8 list \<Rightarrow> u32" where
  "checksum_rest i checksum [] = checksum"
| "checksum_rest i checksum (b # bs) =
     checksum_rest (i + 1) (checksum XOR push_bit ((i mod 4) * 8) (ucast b)) bs"

fun checksum_words :: "nat \<Rightarrow> u32 \<Rightarrow> u8 list \<Rightarrow> u32" where
  "checksum_words i checksum (a # b # c # d # bs) =
     checksum_words (i + 4) (checksum XOR le_word [a, b, c, d]) bs"
| "checksum_words i checksum bs = checksum_rest i checksum bs"

definition calculate_checksum :: "u8 list \<Rightarrow> u32" where
  "calculate_checksum data = checksum_words 0 0 data"

definition get_message_size :: "u16 \<Rightarrow> nat" where
  "get_message_size type =
     (if type = TRADE then TRADE_MSG_SIZE
      else if type = QUOTE then QUOTE_MSG_SIZE
      else if type = HEARTBEAT then HEARTBEAT_MSG_SIZE
      else 0)"

section \<open>TickGenerator: serialisation (tick\_generator.cpp)\<close>

text \<open>
  The steps "copy to buffer" and "calculate and append checksum" of
  \<open>generate_tick_for_symbol\<close> and \<open>generate_heartbeat\<close>: the header, then the payload,
  then the checksum of both.
\<close>

definition encode_trade :: "MessageHeader \<Rightarrow> TradePayload \<Rightarrow> u8 list" where
  "encode_trade header payload =
     (let out_buffer = header_bytes header @ trade_payload_bytes payload;
          checksum = calculate_checksum out_buffer
      in out_buffer @ le_bytes 4 checksum)"

definition encode_quote :: "MessageHeader \<Rightarrow> QuotePayload \<Rightarrow> u8 list" where
  "encode_quote header payload =
     (let out_buffer = header_bytes header @ quote_payload_bytes payload;
          checksum = calculate_checksum out_buffer
      in out_buffer @ le_bytes 4 checksum)"

definition encode_heartbeat :: "MessageHeader \<Rightarrow> u8 list" where
  "encode_heartbeat header =
     (let out_buffer = header_bytes header;
          checksum = calculate_checksum out_buffer
      in out_buffer @ le_bytes 4 checksum)"

text \<open>
  \<open>generate_heartbeat\<close>: the sequence counter (the only member it touches) goes up
  first; \<open>now_ns\<close> is what \<open>get_timestamp_ns\<close> returns.
\<close>

definition generate_heartbeat :: "u64 \<Rightarrow> u32 \<Rightarrow> u8 list \<times> u32" where
  "generate_heartbeat now_ns sequence_v =
     (let sequence' = sequence_v + 1;
          header = \<lparr>message_type = HEARTBEAT, sequence_number = sequence',
                    timestamp_ns = now_ns, symbol_id = 0\<rparr>
      in (encode_heartbeat header, sequence'))"

text \<open>
  A frame as a value: the three kinds, with the header and the payload of the kind.
  \<open>frame_kind_ok\<close> says that the header's type field is the one of the kind
  (the generator sets it so), and \<open>encode_frame\<close> is the generator's serialisation.
\<close>

datatype frame =
    Trade_frame MessageHeader TradePayload
  | Quote_frame MessageHeader QuotePayload
  | Heartbeat_frame MessageHeader

fun frame_header :: "frame \<Rightarrow> MessageHeader" where
  "frame_header (Trade_frame h p) = h"
| "frame_header (Quote_frame h p) = h"
| "frame_header (Heartbeat_frame h) = h"

fun frame_kind_ok :: "frame \<Rightarrow> bool" where
  "frame_kind_ok (Trade_frame h p) \<longleftrightarrow> message_type h = TRADE"
| "frame_kind_ok (Quote_frame h p) \<longleftrightarrow> message_type h = QUOTE"
| "frame_kind_ok (Heartbeat_frame h) \<longleftrightarrow> message_type h = HEARTBEAT"

fun encode_frame :: "frame \<Rightarrow> u8 list" where
  "encode_frame (Trade_frame h p) = encode_trade h p"
| "encode_frame (Quote_frame h p) = encode_quote h p"
| "encode_frame (Heartbeat_frame h) = encode_heartbeat h"

section \<open>MessageParser (parser.h, parser.cpp)\<close>

definition MAX_BUFFER_SIZE :: nat where "MAX_BUFFER_SIZE = 16 * 1024 * 1024"
definition INITIAL_BUFFER_SIZE :: nat where "INITIAL_BUFFER_SIZE = 4 * 1024 * 1024"

datatype ParseResult =
  SUCCESS | NEED_MORE_DATA | INVALID_MESSAGE | CHECKSUM_ERROR | SEQUENCE_GAP

text \<open>
  A callback invocation. The parser's effect on its user is the sequence of the
  invocations it makes, recorded in \<open>events\<close>, oldest first.
\<close>

datatype event =
    Trade_event MessageHeader TradePayload
  | Quote_event MessageHeader QuotePayload
  | Heartbeat_event MessageHeader
  | Gap_event u32 u32

text \<open>
  The parser. \<open>buffer_\<close> is a \<open>std::vector<uint8_t>\<close>: the cells \<open>buffer s i\<close> for
  \<open>i < buffer_size s\<close>. The positions are \<open>size_t\<close>, natural numbers here (they stay
  below 32 MiB). The four \<open>std::function\<close> members are either empty or set; \<open>trade_cb\<close>
  and the others say which, and a set callback appends its invocation to \<open>events\<close>.
  The statistics are atomic 64-bit counters.
\<close>

record MessageParser =
  buffer :: "nat \<Rightarrow> u8"
  buffer_size :: nat
  read_pos :: nat
  write_pos :: nat
  expected_sequence :: u32
  first_message :: bool
  trade_cb :: bool
  quote_cb :: bool
  heartbeat_cb :: bool
  gap_cb :: bool
  messages_parsed :: u64
  trades_parsed :: u64
  quotes_parsed :: u64
  checksum_errors :: u64
  sequence_gaps :: u64
  malformed_messages :: u64
  events :: "event list"

text \<open>The constructor, and the four setters as \<open>FeedHandler\<close> calls them.\<close>

definition MessageParser_new :: MessageParser where
  "MessageParser_new =
     \<lparr>buffer = (\<lambda>_. 0), buffer_size = INITIAL_BUFFER_SIZE, read_pos = 0, write_pos = 0,
      expected_sequence = 0, first_message = True,
      trade_cb = False, quote_cb = False, heartbeat_cb = False, gap_cb = False,
      messages_parsed = 0, trades_parsed = 0, quotes_parsed = 0, checksum_errors = 0,
      sequence_gaps = 0, malformed_messages = 0, events = []\<rparr>"

definition set_callbacks :: "MessageParser \<Rightarrow> MessageParser" where
  "set_callbacks s = s\<lparr>trade_cb := True, quote_cb := True, heartbeat_cb := True, gap_cb := True\<rparr>"

text \<open>Writing past the end of the vector has no defined behaviour: it is an error value.\<close>

datatype parser_error = Buffer_overrun

definition compact_buffer :: "MessageParser \<Rightarrow> MessageParser" where
  "compact_buffer s =
     (if read_pos s = 0 then s
      else (let used = write_pos s - read_pos s;
                s1 = (if used > 0
                      then s\<lparr>buffer := (\<lambda>i. if i < used then buffer s (read_pos s + i)
                                              else buffer s i)\<rparr>
                      else s)
            in s1\<lparr>write_pos := used, read_pos := 0\<rparr>))"

text \<open>The \<open>memcpy\<close> at the end of \<open>append_data\<close>, with the bound of the vector checked.\<close>

definition copy_to_buffer :: "u8 list \<Rightarrow> MessageParser \<Rightarrow> parser_error + (nat \<times> MessageParser)" where
  "copy_to_buffer data s =
     (let len = length data
      in if write_pos s + len > buffer_size s then Inl Buffer_overrun
         else Inr (len,
                   s\<lparr>buffer := (\<lambda>i. if write_pos s \<le> i \<and> i < write_pos s + len
                                    then data ! (i - write_pos s) else buffer s i),
                     write_pos := write_pos s + len\<rparr>))"

text \<open>\<open>buffer_.resize(new_size)\<close> for a larger size: the new cells are zero.\<close>

definition resize_buffer :: "nat \<Rightarrow> MessageParser \<Rightarrow> MessageParser" where
  "resize_buffer new_size s =
     s\<lparr>buffer := (\<lambda>i. if i < buffer_size s then buffer s i else 0),
       buffer_size := new_size\<rparr>"

definition append_data :: "u8 list \<Rightarrow> MessageParser \<Rightarrow> parser_error + (nat \<times> MessageParser)" where
  "append_data data s =
     (let len = length data
      in if len = 0 then Inr (0, s)
         else (let available = buffer_size s - write_pos s
               in if available < len
                  then (let s1 = compact_buffer s;
                            available1 = buffer_size s1 - write_pos s1
                        in if available1 < len
                           then (let new_size = min (buffer_size s1 * 2) MAX_BUFFER_SIZE
                                 in if new_size \<le> buffer_size s1
                                    then Inr (0, s1\<lparr>malformed_messages :=
                                                      malformed_messages s1 + 1\<rparr>)
                                    else copy_to_buffer data (resize_buffer new_size s1))
                           else copy_to_buffer data s1)
                  else copy_to_buffer data s))"

text \<open>The \<open>n\<close> bytes at offset \<open>off\<close> from \<open>msg_start = buffer_.data() + read_pos_\<close>.\<close>

definition peek :: "MessageParser \<Rightarrow> nat \<Rightarrow> nat \<Rightarrow> u8 list" where
  "peek s off n = map (buffer s) [read_pos s + off ..< read_pos s + off + n]"

definition validate_checksum :: "u8 list \<Rightarrow> nat \<Rightarrow> bool" where
  "validate_checksum data msg_len =
     (if msg_len < CHECKSUM_SIZE then False
      else (let data_len = msg_len - CHECKSUM_SIZE;
                expected = calculate_checksum (take data_len data);
                received = le_word (take 4 (drop data_len data))
            in expected = received))"

definition check_sequence :: "u32 \<Rightarrow> MessageParser \<Rightarrow> bool \<times> MessageParser" where
  "check_sequence received_seq s =
     (if first_message s
      then (True, s\<lparr>first_message := False, expected_sequence := received_seq + 1\<rparr>)
      else if received_seq \<noteq> expected_sequence s
      then (let s1 = (if gap_cb s
                      then s\<lparr>events := events s @ [Gap_event (expected_sequence s) received_seq]\<rparr>
                      else s);
                s2 = s1\<lparr>sequence_gaps := sequence_gaps s1 + 1\<rparr>
            in (False, s2\<lparr>expected_sequence := received_seq + 1\<rparr>))
      else (True, s\<lparr>expected_sequence := received_seq + 1\<rparr>))"

text \<open>The \<open>switch (type)\<close> of \<open>parse_one\<close>.\<close>

definition dispatch :: "u16 \<Rightarrow> MessageHeader \<Rightarrow> MessageParser \<Rightarrow> MessageParser" where
  "dispatch type header s =
     (if type = TRADE
      then (let s1 = (if trade_cb s
                      then s\<lparr>events := events s @
                              [Trade_event header
                                 (read_trade_payload (peek s HEADER_SIZE TRADE_PAYLOAD_SIZE))]\<rparr>
                      else s)
            in s1\<lparr>trades_parsed := trades_parsed s1 + 1\<rparr>)
      else if type = QUOTE
      then (let s1 = (if quote_cb s
                      then s\<lparr>events := events s @
                              [Quote_event header
                                 (read_quote_payload (peek s HEADER_SIZE QUOTE_PAYLOAD_SIZE))]\<rparr>
                      else s)
            in s1\<lparr>quotes_parsed := quotes_parsed s1 + 1\<rparr>)
      else if type = HEARTBEAT
      then (if heartbeat_cb s then s\<lparr>events := events s @ [Heartbeat_event header]\<rparr> else s)
      else s)"

definition parse_one :: "MessageParser \<Rightarrow> ParseResult \<times> MessageParser" where
  "parse_one s =
     (let available = write_pos s - read_pos s
      in if available < HEADER_SIZE then (NEED_MORE_DATA, s)
         else (let header = read_header (peek s 0 HEADER_SIZE);
                   type = message_type header;
                   msg_size = get_message_size type
               in if msg_size = 0
                  then (INVALID_MESSAGE,
                        s\<lparr>read_pos := read_pos s + 1,
                          malformed_messages := malformed_messages s + 1\<rparr>)
                  else if available < msg_size then (NEED_MORE_DATA, s)
                  else if msg_size > QUOTE_MSG_SIZE
                  then (INVALID_MESSAGE,
                        s\<lparr>read_pos := read_pos s + 1,
                          malformed_messages := malformed_messages s + 1\<rparr>)
                  else if \<not> validate_checksum (peek s 0 msg_size) msg_size
                  then (CHECKSUM_ERROR,
                        s\<lparr>read_pos := read_pos s + 1,
                          checksum_errors := checksum_errors s + 1\<rparr>)
                  else (let (in_order, s1) = check_sequence (sequence_number header) s;
                            has_gap = \<not> in_order;
                            s2 = dispatch type header s1;
                            s3 = s2\<lparr>messages_parsed := messages_parsed s2 + 1,
                                    read_pos := read_pos s2 + msg_size\<rparr>
                        in (if has_gap then SEQUENCE_GAP else SUCCESS, s3))))"

text \<open>
  \<open>parse_messages\<close>: the loop runs until \<open>parse_one\<close> asks for more data. Every other
  result consumes at least one byte, which is why the loop ends.
\<close>

function parse_loop :: "nat \<Rightarrow> MessageParser \<Rightarrow> nat \<times> MessageParser" where
  "parse_loop count_v s =
     (case parse_one s of
        (result, s') \<Rightarrow>
          if result = NEED_MORE_DATA then (count_v, s')
          else parse_loop (if result = SUCCESS \<or> result = SEQUENCE_GAP
                           then count_v + 1 else count_v) s')"
  by pat_completeness auto
termination
proof (relation "measure (\<lambda>(count_v, s). write_pos s - read_pos s)")
  show "wf (measure (\<lambda>(count_v, s). write_pos s - read_pos s))" by simp
next
  fix count_v :: nat and s x1 x2
  assume "(x1, x2) = parse_one s" and "x1 \<noteq> NEED_MORE_DATA"
  then have "write_pos x2 - read_pos x2 < write_pos s - read_pos s"
    by (auto simp: parse_one_def Let_def check_sequence_def dispatch_def HEADER_SIZE_def
          get_message_size_def TRADE_MSG_SIZE_def QUOTE_MSG_SIZE_def HEARTBEAT_MSG_SIZE_def
          TRADE_PAYLOAD_SIZE_def QUOTE_PAYLOAD_SIZE_def CHECKSUM_SIZE_def
        split: if_splits prod.splits)
  then show "((if x1 = SUCCESS \<or> x1 = SEQUENCE_GAP then count_v + 1 else count_v, x2),
              count_v, s) \<in> measure (\<lambda>(count_v, s). write_pos s - read_pos s)"
    by simp
qed

definition parse_messages :: "MessageParser \<Rightarrow> nat \<times> MessageParser" where
  "parse_messages s = parse_loop 0 s"

text \<open>
  The consumer's receive loop (\<open>FeedHandler::process_data\<close>), for the chunks that
  \<open>receive\<close> returns: each is appended and the buffer is parsed. The count that
  \<open>parse_messages\<close> returns is added up.
\<close>

fun feed_chunks :: "u8 list list \<Rightarrow> nat \<Rightarrow> MessageParser \<Rightarrow> parser_error + (nat \<times> MessageParser)" where
  "feed_chunks [] total_v s = Inr (total_v, s)"
| "feed_chunks (chunk # chunks) total_v s =
     (case append_data chunk s of
        Inl e \<Rightarrow> Inl e
      | Inr (n, s1) \<Rightarrow>
          (case parse_messages s1 of
             (parsed, s2) \<Rightarrow> feed_chunks chunks (total_v + parsed) s2))"

text \<open>The callback invocation that delivers a frame.\<close>

fun frame_event :: "frame \<Rightarrow> event" where
  "frame_event (Trade_frame h p) = Trade_event h p"
| "frame_event (Quote_frame h p) = Quote_event h p"
| "frame_event (Heartbeat_frame h) = Heartbeat_event h"

text \<open>
  Notions for stating what the parser does. \<open>live\<close> is the unread region
  \<open>[read_pos_, write_pos_)\<close> of the buffer. \<open>accepts s\<close> collects the tests of
  \<open>parse_one\<close> that a frame at the read position passes before its sequence number is
  looked at: a whole header, a known type, the whole frame present, the size bound
  and the checksum. \<open>delivery\<close> is the invocation the \<open>switch\<close> makes for it.
\<close>

definition live :: "MessageParser \<Rightarrow> u8 list" where
  "live s = map (buffer s) [read_pos s ..< write_pos s]"

definition next_header :: "MessageParser \<Rightarrow> MessageHeader" where
  "next_header s = read_header (peek s 0 HEADER_SIZE)"

definition next_size :: "MessageParser \<Rightarrow> nat" where
  "next_size s = get_message_size (message_type (next_header s))"

definition accepts :: "MessageParser \<Rightarrow> bool" where
  "accepts s \<longleftrightarrow>
     HEADER_SIZE \<le> write_pos s - read_pos s
     \<and> next_size s \<noteq> 0
     \<and> next_size s \<le> write_pos s - read_pos s
     \<and> next_size s \<le> QUOTE_MSG_SIZE
     \<and> validate_checksum (peek s 0 (next_size s)) (next_size s)"

definition delivery :: "MessageParser \<Rightarrow> event list" where
  "delivery s =
     (let h = next_header s
      in if message_type h = TRADE
         then (if trade_cb s
               then [Trade_event h (read_trade_payload (peek s HEADER_SIZE TRADE_PAYLOAD_SIZE))]
               else [])
         else if message_type h = QUOTE
         then (if quote_cb s
               then [Quote_event h (read_quote_payload (peek s HEADER_SIZE QUOTE_PAYLOAD_SIZE))]
               else [])
         else if message_type h = HEARTBEAT
         then (if heartbeat_cb s then [Heartbeat_event h] else [])
         else [])"

text \<open>
  The invariant of the buffer: the positions are ordered and inside the vector, whose
  size is between the initial and the maximal one.
\<close>

definition parser_inv :: "MessageParser \<Rightarrow> bool" where
  "parser_inv s \<longleftrightarrow>
     read_pos s \<le> write_pos s \<and> write_pos s \<le> buffer_size s
     \<and> INITIAL_BUFFER_SIZE \<le> buffer_size s \<and> buffer_size s \<le> MAX_BUFFER_SIZE"

definition callbacks_set :: "MessageParser \<Rightarrow> bool" where
  "callbacks_set s \<longleftrightarrow> trade_cb s \<and> quote_cb s \<and> heartbeat_cb s \<and> gap_cb s"



text \<open>
  The state after an accepted frame, written out: \<open>gap_here\<close> is the test of
  \<open>check_sequence\<close> that reports a gap.
\<close>

definition gap_here :: "MessageParser \<Rightarrow> bool" where
  "gap_here s \<longleftrightarrow>
     \<not> first_message s \<and> sequence_number (next_header s) \<noteq> expected_sequence s"

definition accepted_state :: "MessageParser \<Rightarrow> MessageParser" where
  "accepted_state s =
     s\<lparr>first_message := False,
       expected_sequence := sequence_number (next_header s) + 1,
       events := events s
                 @ (if gap_here s \<and> gap_cb s
                    then [Gap_event (expected_sequence s) (sequence_number (next_header s))]
                    else [])
                 @ delivery s,
       sequence_gaps := sequence_gaps s + (if gap_here s then 1 else 0),
       trades_parsed := trades_parsed s + (if message_type (next_header s) = TRADE then 1 else 0),
       quotes_parsed := quotes_parsed s + (if message_type (next_header s) = QUOTE then 1 else 0),
       messages_parsed := messages_parsed s + 1,
       read_pos := read_pos s + next_size s\<rparr>"

text \<open>
  A run of calls on a parser, for the invariant of the expected sequence number.
  Next to the parser it carries the sequence number of the last frame that was
  accepted, \<open>None\<close> before the first one.
\<close>

datatype parser_call = Append_data "u8 list" | Parse_one

fun run_calls ::
  "parser_call list \<Rightarrow> MessageParser \<times> u32 option
     \<Rightarrow> parser_error + (MessageParser \<times> u32 option)" where
  "run_calls [] st = Inr st"
| "run_calls (Append_data d # cs) (s, la) =
     (case append_data d s of
        Inl e \<Rightarrow> Inl e
      | Inr (n, s') \<Rightarrow> run_calls cs (s', la))"
| "run_calls (Parse_one # cs) (s, la) =
     run_calls cs
       (snd (parse_one s),
        if accepts s then Some (sequence_number (next_header s)) else la)"

text \<open>
  \<open>same_progress s s'\<close>: the two states differ at most in the buffer and its
  positions. \<open>consumed s fs s'\<close>: from \<open>s\<close> to \<open>s'\<close> the frames \<open>fs\<close> were delivered in
  order, each by the invocation of its kind, and nothing else was reported or counted.
\<close>

definition same_progress :: "MessageParser \<Rightarrow> MessageParser \<Rightarrow> bool" where
  "same_progress s s' \<longleftrightarrow>
     expected_sequence s' = expected_sequence s \<and> first_message s' = first_message s
     \<and> events s' = events s \<and> sequence_gaps s' = sequence_gaps s
     \<and> checksum_errors s' = checksum_errors s \<and> malformed_messages s' = malformed_messages s
     \<and> messages_parsed s' = messages_parsed s
     \<and> trades_parsed s' = trades_parsed s \<and> quotes_parsed s' = quotes_parsed s
     \<and> trade_cb s' = trade_cb s \<and> quote_cb s' = quote_cb s
     \<and> heartbeat_cb s' = heartbeat_cb s \<and> gap_cb s' = gap_cb s"


text \<open>
  Concrete input. \<open>e3_frame\<close> is the quote of scenario E3 of the specification; the
  prices 100.25 and 100.75 are the bit patterns of the doubles. \<open>hb_frame i\<close> is a
  heartbeat with sequence number \<open>i\<close>, \<open>hb_frames a n\<close> are the \<open>n\<close> heartbeats from
  number \<open>a\<close> on and \<open>hb_chunk a n\<close> is the chunk of bytes that holds them.
  \<open>bytewise\<close> cuts a byte list into chunks of one byte.
\<close>

definition e3_header :: MessageHeader where
  "e3_header = \<lparr>message_type = QUOTE, sequence_number = 7,
                timestamp_ns = 1000000000, symbol_id = 42\<rparr>"

definition e3_payload :: QuotePayload where
  "e3_payload = \<lparr>qp_bid_price = 0x4059100000000000, qp_bid_quantity = 1000,
                 qp_ask_price = 0x4059300000000000, qp_ask_quantity = 2000\<rparr>"

definition e3_frame :: frame where
  "e3_frame = Quote_frame e3_header e3_payload"

definition hb_frame :: "nat \<Rightarrow> frame" where
  "hb_frame i = Heartbeat_frame \<lparr>message_type = HEARTBEAT, sequence_number = of_nat i,
                                 timestamp_ns = 0, symbol_id = 0\<rparr>"

definition hb_frames :: "nat \<Rightarrow> nat \<Rightarrow> frame list" where
  "hb_frames a n = map hb_frame [a ..< a + n]"


definition bytewise :: "u8 list \<Rightarrow> u8 list list" where
  "bytewise bs = map (\<lambda>b. [b]) bs"

text \<open>The parts of the result of \<open>feed_chunks\<close>, \<open>None\<close> for the buffer overrun.\<close>

definition fed_count :: "parser_error + (nat \<times> MessageParser) \<Rightarrow> nat option" where
  "fed_count r = (case r of Inl e \<Rightarrow> None | Inr (n, s) \<Rightarrow> Some n)"

definition fed_events :: "parser_error + (nat \<times> MessageParser) \<Rightarrow> event list option" where
  "fed_events r = (case r of Inl e \<Rightarrow> None | Inr (n, s) \<Rightarrow> Some (events s))"

definition fed_malformed :: "parser_error + (nat \<times> MessageParser) \<Rightarrow> u64 option" where
  "fed_malformed r = (case r of Inl e \<Rightarrow> None | Inr (n, s) \<Rightarrow> Some (malformed_messages s))"

definition fed_state :: "parser_error + (nat \<times> MessageParser) \<Rightarrow> MessageParser option" where
  "fed_state r = (case r of Inl e \<Rightarrow> None | Inr (n, s) \<Rightarrow> Some s)"

text \<open>
  The parser of a consumer before the first byte: constructed, with the four
  callbacks set. Then the states of a small run with a gap: the heartbeat 7 appended
  and parsed, and the heartbeat 9 appended.
\<close>

definition fresh_parser :: MessageParser where
  "fresh_parser = set_callbacks MessageParser_new"

definition after_hb7 :: MessageParser where
  "after_hb7 = the (fed_state (append_data (encode_frame (hb_frame 7)) fresh_parser))"

definition after_hb7_parsed :: MessageParser where
  "after_hb7_parsed = snd (parse_one after_hb7)"

definition gap_state :: MessageParser where
  "gap_state = the (fed_state (append_data (encode_frame (hb_frame 9)) after_hb7_parsed))"


section \<open>ClientManager and the heartbeat (client\_manager.h, client\_manager.cpp, exchange\_simulator.cpp)\<close>

text \<open>
  What the kernel answers for one socket during one call of \<open>send_to_client\<close>:
  \<open>outq_before\<close> is the value of \<open>get_pending_bytes\<close> (the \<open>TIOCOUTQ\<close> reading taken
  before the send, 0 when the \<open>ioctl\<close> fails), \<open>send_outcome\<close> is the result of
  \<open>::send\<close> (the bytes accepted, or -1 with \<open>EAGAIN\<close>/\<open>EWOULDBLOCK\<close>, or -1 with another
  \<open>errno\<close>), and \<open>outq_after\<close> is the depth of the send queue once \<open>::send\<close> has
  returned, which the code never reads. A \<open>kernel\<close> gives the answers per socket.
\<close>

datatype send_result = Sent nat | Would_block | Send_error

record sock_env =
  outq_before :: nat
  send_outcome :: send_result
  outq_after :: nat

type_synonym kernel = "int \<Rightarrow> sock_env"

definition MAX_SEND_BUFFER_SIZE :: nat where "MAX_SEND_BUFFER_SIZE = 4 * 1024 * 1024"
definition SLOW_CONSUMER_THRESHOLD :: nat where "SLOW_CONSUMER_THRESHOLD = 1 * 1024 * 1024"

text \<open>
  \<open>struct ClientConnection\<close>. The \<open>size_t\<close> members are natural numbers, the time points
  are clock readings. \<open>clients_\<close> is an \<open>unordered_map\<close> from the descriptor to the
  connection: an association list with one entry per descriptor, in the order the
  map iterates.
\<close>

record ClientConnection =
  fd :: int
  address :: string
  port :: u16
  subscribed_symbols :: "u16 set"
  subscribe_all :: bool
  pending_bytes :: nat
  slow_consumer_count :: nat
  is_slow :: bool
  messages_sent :: u64
  bytes_sent :: u64
  connect_time :: nat
  last_activity :: nat

record ClientManager =
  clients :: "(int \<times> ClientConnection) list"
  slow_threshold :: nat
  total_messages_sent :: u64
  total_bytes_sent :: u64

definition ClientManager_new :: ClientManager where
  "ClientManager_new =
     \<lparr>clients = [], slow_threshold = SLOW_CONSUMER_THRESHOLD,
      total_messages_sent = 0, total_bytes_sent = 0\<rparr>"

text \<open>\<open>clients_.find(fd)\<close>, and an assignment through the iterator it returns.\<close>

definition find_client :: "ClientManager \<Rightarrow> int \<Rightarrow> ClientConnection option" where
  "find_client m fd_v = map_of (clients m) fd_v"

definition update_client ::
  "int \<Rightarrow> (ClientConnection \<Rightarrow> ClientConnection) \<Rightarrow> ClientManager \<Rightarrow> ClientManager" where
  "update_client fd_v f m =
     m\<lparr>clients := map (\<lambda>(k, c). if k = fd_v then (k, f c) else (k, c)) (clients m)\<rparr>"

definition add_client :: "int \<Rightarrow> string \<Rightarrow> u16 \<Rightarrow> nat \<Rightarrow> ClientManager \<Rightarrow> bool \<times> ClientManager" where
  "add_client fd_v address_v port_v now m =
     (if find_client m fd_v \<noteq> None then (False, m)
      else (let conn = \<lparr>fd = fd_v, address = address_v, port = port_v,
                        subscribed_symbols = {}, subscribe_all = True,
                        pending_bytes = 0, slow_consumer_count = 0, is_slow = False,
                        messages_sent = 0, bytes_sent = 0,
                        connect_time = now, last_activity = now\<rparr>
            in (True, m\<lparr>clients := clients m @ [(fd_v, conn)]\<rparr>)))"

definition remove_client :: "int \<Rightarrow> ClientManager \<Rightarrow> ClientManager" where
  "remove_client fd_v m = m\<lparr>clients := filter (\<lambda>(k, c). k \<noteq> fd_v) (clients m)\<rparr>"

definition handle_subscription :: "int \<Rightarrow> u16 list \<Rightarrow> ClientManager \<Rightarrow> bool \<times> ClientManager" where
  "handle_subscription fd_v symbol_ids m =
     (case find_client m fd_v of
        None \<Rightarrow> (False, m)
      | Some _ \<Rightarrow>
          (True, update_client fd_v
                   (\<lambda>c. c\<lparr>subscribed_symbols := set symbol_ids,
                           subscribe_all := (length symbol_ids = 0)\<rparr>) m))"

definition mark_slow_consumer :: "int \<Rightarrow> ClientManager \<Rightarrow> ClientManager" where
  "mark_slow_consumer fd_v m =
     (case find_client m fd_v of
        None \<Rightarrow> m
      | Some _ \<Rightarrow>
          update_client fd_v
            (\<lambda>c. c\<lparr>is_slow := True, slow_consumer_count := slow_consumer_count c + 1\<rparr>) m)"

definition clear_slow_status :: "int \<Rightarrow> ClientManager \<Rightarrow> ClientManager" where
  "clear_slow_status fd_v m =
     (case find_client m fd_v of
        None \<Rightarrow> m
      | Some _ \<Rightarrow> update_client fd_v (\<lambda>c. c\<lparr>is_slow := False\<rparr>) m)"

text \<open>
  \<open>send_to_client\<close>. Besides the return value and the manager it yields the \<open>::send\<close>
  calls it made, each with the descriptor and the result: none when the client is
  unknown or the queue reading is above the threshold, one otherwise.
\<close>

definition send_to_client ::
  "kernel \<Rightarrow> int \<Rightarrow> nat \<Rightarrow> ClientManager
     \<Rightarrow> bool \<times> ClientManager \<times> (int \<times> send_result) list" where
  "send_to_client k fd_v len m =
     (case find_client m fd_v of
        None \<Rightarrow> (False, m, [])
      | Some client \<Rightarrow>
          (let pending = outq_before (k fd_v);
               m1 = update_client fd_v (\<lambda>c. c\<lparr>pending_bytes := pending\<rparr>) m
           in if pending > slow_threshold m1
              then (False, mark_slow_consumer fd_v m1, [])
              else (case send_outcome (k fd_v) of
                      Would_block \<Rightarrow>
                        (False, mark_slow_consumer fd_v m1, [(fd_v, Would_block)])
                    | Send_error \<Rightarrow> (False, m1, [(fd_v, Send_error)])
                    | Sent sent \<Rightarrow>
                        if sent < len
                        then (False, mark_slow_consumer fd_v m1, [(fd_v, Sent sent)])
                        else (True,
                              (if is_slow client \<and> pending < slow_threshold m1 div 2
                               then clear_slow_status fd_v m1 else m1),
                              [(fd_v, Sent sent)]))))"

text \<open>
  \<open>broadcast\<close>: the loop over \<open>clients_\<close>, with the count, the manager and the \<open>::send\<close>
  calls made so far; then the two totals.
\<close>

fun broadcast_loop ::
  "kernel \<Rightarrow> nat \<Rightarrow> nat \<Rightarrow> u16 \<Rightarrow> int list
     \<Rightarrow> nat \<times> ClientManager \<times> (int \<times> send_result) list
     \<Rightarrow> nat \<times> ClientManager \<times> (int \<times> send_result) list" where
  "broadcast_loop k now len sym_id [] acc = acc"
| "broadcast_loop k now len sym_id (fd_v # fds) (count_v, m, sends) =
     (case find_client m fd_v of
        None \<Rightarrow> broadcast_loop k now len sym_id fds (count_v, m, sends)
      | Some client \<Rightarrow>
          if is_slow client
          then broadcast_loop k now len sym_id fds (count_v, m, sends)
          else if \<not> subscribe_all client \<and> sym_id \<notin> subscribed_symbols client
          then broadcast_loop k now len sym_id fds (count_v, m, sends)
          else (case send_to_client k fd_v len m of
                  (ok, m1, calls) \<Rightarrow>
                    if ok
                    then broadcast_loop k now len sym_id fds
                           (count_v + 1,
                            update_client fd_v
                              (\<lambda>c. c\<lparr>messages_sent := messages_sent c + 1,
                                      bytes_sent := bytes_sent c + of_nat len,
                                      last_activity := now\<rparr>) m1,
                            sends @ calls)
                    else broadcast_loop k now len sym_id fds (count_v, m1, sends @ calls)))"

definition broadcast ::
  "kernel \<Rightarrow> nat \<Rightarrow> nat \<Rightarrow> u16 \<Rightarrow> ClientManager
     \<Rightarrow> nat \<times> ClientManager \<times> (int \<times> send_result) list" where
  "broadcast k now len sym_id m =
     (case broadcast_loop k now len sym_id (map fst (clients m)) (0, m, []) of
        (count_v, m1, sends) \<Rightarrow>
          (count_v,
           m1\<lparr>total_messages_sent := total_messages_sent m1 + of_nat count_v,
              total_bytes_sent := total_bytes_sent m1 + of_nat (count_v * len)\<rparr>,
           sends))"

definition get_all_client_fds :: "ClientManager \<Rightarrow> int list" where
  "get_all_client_fds m = map fst (clients m)"

text \<open>
  \<open>ExchangeSimulator::send_heartbeat\<close>: the buffer that \<open>generate_heartbeat\<close> fills has
  \<open>HEARTBEAT_MSG_SIZE\<close> bytes, and \<open>send_to_client\<close> is called with it for every
  descriptor of \<open>get_all_client_fds\<close>. The flow control looks at the length only.
\<close>

fun heartbeat_loop ::
  "kernel \<Rightarrow> nat \<Rightarrow> int list \<Rightarrow> ClientManager \<times> (int \<times> send_result) list
     \<Rightarrow> ClientManager \<times> (int \<times> send_result) list" where
  "heartbeat_loop k len [] acc = acc"
| "heartbeat_loop k len (fd_v # fds) (m, sends) =
     (case send_to_client k fd_v len m of
        (ok, m1, calls) \<Rightarrow> heartbeat_loop k len fds (m1, sends @ calls))"

definition send_heartbeat ::
  "kernel \<Rightarrow> ClientManager \<Rightarrow> ClientManager \<times> (int \<times> send_result) list" where
  "send_heartbeat k m = heartbeat_loop k HEARTBEAT_MSG_SIZE (get_all_client_fds m) (m, [])"

text \<open>
  Concrete input: a manager with the one subscriber 5, marked slow after a send that
  would have blocked, and two kernels. For \<open>drained_kernel\<close> the queue of every socket
  is empty and a send is accepted whole. For \<open>filling_kernel\<close> the reading before the
  send is one byte below half the threshold, the 20 bytes are accepted, and the queue
  then holds 524307 bytes.
\<close>

definition blocked_kernel :: kernel where
  "blocked_kernel = (\<lambda>_. \<lparr>outq_before = 0, send_outcome = Would_block, outq_after = 0\<rparr>)"

definition drained_kernel :: kernel where
  "drained_kernel = (\<lambda>_. \<lparr>outq_before = 0, send_outcome = Sent 20, outq_after = 20\<rparr>)"

definition filling_kernel :: kernel where
  "filling_kernel =
     (\<lambda>_. \<lparr>outq_before = 524287, send_outcome = Sent 20, outq_after = 524307\<rparr>)"

definition slow_manager :: ClientManager where
  "slow_manager =
     fst (snd (send_to_client blocked_kernel 5 20
                 (snd (add_client 5 ''10.0.0.1'' 4000 0 ClientManager_new))))"

section \<open>Properties of the double arithmetic\<close>

lemma ilog2_bounds:
  assumes "0 < x"
  shows "2 powi ilog2 x \<le> x" and "x < 2 powi (ilog2 x + 1)"
proof -
  have "2 powi ilog2 x \<le> x \<and> x < 2 powi (ilog2 x + 1)"
  proof (cases "1 \<le> x")
    case True
    define n where "n = \<lfloor>x\<rfloor>"
    from True have n: "0 < n" by (simp add: n_def)
    from bitlen_bounds [OF n] have b: "2 ^ nat (bitlen n - 1) \<le> n" "n < 2 ^ nat (bitlen n)"
      by simp_all
    from n have bl: "1 \<le> bitlen n" by (simp add: bitlen_alt_def)
    have il: "ilog2 x = bitlen n - 1" using True by (simp add: ilog2_def n_def)
    have "2 powi (bitlen n - 1) = (2::real) ^ nat (bitlen n - 1)"
      using bl by (simp add: power_int_def)
    also have "\<dots> = of_int (2 ^ nat (bitlen n - 1))" by simp
    also have "\<dots> \<le> of_int n" using b(1) by (simp only: of_int_le_iff)
    also have "\<dots> \<le> x" by (simp add: n_def)
    finally have lo: "2 powi ilog2 x \<le> x" by (simp add: il)
    have "x < of_int (n + 1)" by (simp add: n_def)
    also have "of_int (n + 1) \<le> (of_int (2 ^ nat (bitlen n)) :: real)"
      using b(2) by (simp only: of_int_le_iff; simp)
    also have "\<dots> = 2 ^ nat (bitlen n)" by simp
    also have "\<dots> = 2 powi (bitlen n)" using bl by (simp add: power_int_def)
    finally have "x < 2 powi (ilog2 x + 1)" by (simp add: il)
    with lo show ?thesis by simp
  next
    case False
    define c where "c = \<lceil>1 / x\<rceil>"
    define k where "k = bitlen (c - 1)"
    from False assms have "1 < 1 / x" by simp
    then have c2: "2 \<le> c" unfolding c_def by linarith
    then have c1: "0 < c - 1" by simp
    from bitlen_bounds [OF c1] have b: "2 ^ nat (k - 1) \<le> c - 1" "c - 1 < 2 ^ nat k"
      by (simp_all add: k_def)
    from c1 have k1: "1 \<le> k" by (simp add: k_def bitlen_alt_def)
    have il: "ilog2 x = - k" using False by (simp add: ilog2_def k_def c_def)
    have "1 / x \<le> of_int c" by (simp add: c_def)
    also have "of_int c \<le> (of_int (2 ^ nat k) :: real)"
      using b(2) by (simp only: of_int_le_iff; simp)
    finally have "1 / x \<le> 2 ^ nat k" by simp
    with assms have "1 / 2 ^ nat k \<le> x"
      by (simp add: field_simps)
    moreover have "2 powi (- k) = 1 / (2::real) ^ nat k"
    proof -
      have "2 powi (- k) = inverse ((2::real) powi k)" by (rule power_int_minus)
      also have "(2::real) powi k = 2 ^ nat k" using k1 by (simp add: power_int_def)
      finally show ?thesis by (simp add: inverse_eq_divide)
    qed
    ultimately have lo: "2 powi ilog2 x \<le> x" by (simp add: il)
    have "(of_int (2 ^ nat (k - 1)) :: real) \<le> of_int (c - 1)"
      using b(1) by (simp only: of_int_le_iff)
    also have "of_int (c - 1) < 1 / x" unfolding c_def by linarith
    finally have "2 ^ nat (k - 1) < 1 / x" by simp
    with assms have "x < 1 / 2 ^ nat (k - 1)"
      by (simp add: field_simps)
    moreover have "2 powi (- k + 1) = 1 / (2::real) ^ nat (k - 1)"
    proof -
      have "- k + 1 = - (k - 1)" by simp
      then have "2 powi (- k + 1) = inverse ((2::real) powi (k - 1))"
        by (simp only: power_int_minus)
      also have "(2::real) powi (k - 1) = 2 ^ nat (k - 1)"
        using k1 by (simp add: power_int_def)
      finally show ?thesis by (simp add: inverse_eq_divide)
    qed
    ultimately have "x < 2 powi (ilog2 x + 1)" by (simp add: il)
    with lo show ?thesis by simp
  qed
  then show "2 powi ilog2 x \<le> x" and "x < 2 powi (ilog2 x + 1)" by simp_all
qed

lemma ilog2_unique:
  assumes "2 powi e \<le> x" and "x < 2 powi (e + 1)"
  shows "ilog2 x = e"
proof -
  have "0 < (2::real) powi e" by simp
  with assms(1) have pos: "0 < x" by linarith
  note b = ilog2_bounds [OF pos]
  have "\<not> e + 1 \<le> ilog2 x"
  proof
    assume "e + 1 \<le> ilog2 x"
    then have "(2::real) powi (e + 1) \<le> 2 powi ilog2 x"
      by (rule power_int_increasing) simp
    with b(1) assms(2) show False by linarith
  qed
  moreover have "\<not> ilog2 x + 1 \<le> e"
  proof
    assume "ilog2 x + 1 \<le> e"
    then have "(2::real) powi (ilog2 x + 1) \<le> 2 powi e"
      by (rule power_int_increasing) simp
    with b(2) assms(1) show False by linarith
  qed
  ultimately show ?thesis by linarith
qed

text \<open>
  The rounding of a number in the normal range, from its exponent and the rounded
  multiple of the last place.
\<close>

lemma double_round_normal:
  assumes "2 powi e \<le> \<bar>x\<bar>" and "\<bar>x\<bar> < 2 powi (e + 1)" and "- 1022 \<le> e"
    and "round_even (x / 2 powi (e - 52)) = m" and "m \<noteq> 0"
    and "\<bar>of_int m * 2 powi (e - 52)\<bar> < (2::real) ^ 1024"
  shows "double_round x = Finite (of_int m * 2 powi (e - 52))"
proof -
  have il: "ilog2 \<bar>x\<bar> = e" by (rule ilog2_unique [OF assms(1,2)])
  from assms(3) have q: "max e (- 1022) - 52 = e - 52" by simp
  from assms(5) have nz: "of_int m * (2::real) powi (e - 52) \<noteq> 0" by simp
  from assms(6) have "\<not> (2::real) ^ 1024 \<le> \<bar>of_int m * 2 powi (e - 52)\<bar>" by simp
  with nz show ?thesis
    by (simp only: double_round_def il q Let_def assms(4) if_False simp_thms)
qed

lemma round_even_of_int [simp]: "round_even (of_int n) = n"
  by (simp add: round_even_def)

text \<open>A number of the format in the normal range is its own rounding.\<close>

lemma double_round_exact:
  assumes "x = of_int m * 2 powi (e - 52)"
    and "2 powi e \<le> \<bar>x\<bar>" and "\<bar>x\<bar> < 2 powi (e + 1)" and "- 1022 \<le> e" and "e \<le> 1023"
  shows "double_round x = Finite x"
proof -
  have "(0::real) < 2 powi e" by simp
  with assms(2) have nz: "x \<noteq> 0" by linarith
  with assms(1) have m: "m \<noteq> 0" by auto
  have "x / 2 powi (e - 52) = of_int m" by (simp add: assms(1))
  then have r: "round_even (x / 2 powi (e - 52)) = m" by simp
  from assms(5) have "(2::real) powi (e + 1) \<le> 2 powi 1024"
    by (intro power_int_increasing) simp_all
  with assms(3) have "\<bar>x\<bar> < 2 ^ 1024" by simp
  then have "\<bar>of_int m * 2 powi (e - 52)\<bar> < (2::real) ^ 1024"
    by (simp only: assms(1) [symmetric])
  from double_round_normal [OF assms(2,3,4) r m this] show ?thesis
    by (simp only: assms(1) [symmetric])
qed

lemma double_round_1: "double_round 1 = Finite 1"
  by (rule double_round_exact [of _ "2 ^ 52" 0]) (simp_all add: power_int_minus)

lemma double_round_3: "double_round 3 = Finite 3"
  by (rule double_round_exact [of _ "3 * 2 ^ 51" 1]) (simp_all add: power_int_minus)

lemma double_round_1_2: "double_round (1 / 2) = Finite (1 / 2)"
  by (rule double_round_exact [of _ "2 ^ 52" "- 1"]) (simp_all add: power_int_minus)

lemma double_round_3_2: "double_round (3 / 2) = Finite (3 / 2)"
  by (rule double_round_exact [of _ "3 * 2 ^ 51" 0]) (simp_all add: power_int_minus)

lemma double_round_201: "double_round 201 = Finite 201"
  by (rule double_round_exact [of _ "201 * 2 ^ 45" 7]) (simp_all add: power_int_minus)

lemma double_round_201_2: "double_round (201 / 2) = Finite (201 / 2)"
  by (rule double_round_exact [of _ "201 * 2 ^ 45" 6]) (simp_all add: power_int_minus)

lemma double_div_50_100: "double_div (Finite 50) (Finite 100) = Finite (1 / 2)"
  by (simp add: double_div_def double_round_1_2)

lemma double_of_u64_3: "double_of_u64 3 = Finite 3"
  by (simp add: double_of_u64_def double_round_3)

lemma double_of_u64_1: "double_of_u64 1 = Finite 1"
  by (simp add: double_of_u64_def double_round_1)

lemma double_mul_half_3: "double_mul (Finite (1 / 2)) (Finite 3) = Finite (3 / 2)"
  by (simp add: double_mul_def double_round_3_2)

lemma double_mul_half_1: "double_mul (Finite (1 / 2)) (Finite 1) = Finite (1 / 2)"
  by (simp add: double_mul_def double_round_1_2)

lemma double_mid_100_101:
  "double_div (double_add (Finite 100) (Finite 101)) (Finite 2) = Finite (201 / 2)"
  by (simp add: double_add_def double_div_def double_round_201 double_round_201_2)

text \<open>
  The sum of the doubles 0.1 and 0.2 lies half way between two doubles and is rounded
  up to the even one; the midpoint computed from it is above the exact midpoint.
\<close>

lemma double_add_0_1_0_2:
  "double_add double_0_1 double_0_2 = Finite (1351079888211149 / 2 ^ 52)"
proof -
  let ?x = "10808639105689191 / 2 ^ 55 :: real"
  have r: "round_even (?x / 2 powi (- 2 - 52)) = 5404319552844596"
  proof -
    have "?x / 2 powi (- 2 - 52) = 10808639105689191 / 2"
      by (simp add: power_int_minus)
    moreover have "\<lfloor>10808639105689191 / 2 :: real\<rfloor> = 5404319552844595" by simp
    ultimately show ?thesis by (simp add: round_even_def Let_def)
  qed
  have "double_round ?x = Finite (of_int 5404319552844596 * 2 powi (- 2 - 52))"
    by (rule double_round_normal [OF _ _ _ r]) (simp_all add: power_int_minus)
  then have "double_round ?x = Finite (1351079888211149 / 2 ^ 52)"
    by (simp add: power_int_minus)
  moreover have "3602879701896397 / 2 ^ 55 + 3602879701896397 / 2 ^ 54 = ?x" by simp
  ultimately show ?thesis
    by (simp only: double_add_def double_0_1_def double_0_2_def double.simps is_inf.simps
          is_zero.simps double_value.simps if_False simp_thms) simp
qed

lemma double_mid_0_1_0_2:
  "double_div (double_add double_0_1 double_0_2) (Finite 2) = Finite (1351079888211149 / 2 ^ 53)"
proof -
  have "double_round (1351079888211149 / 2 ^ 53) = Finite (1351079888211149 / 2 ^ 53)"
    by (rule double_round_exact [of _ 5404319552844596 "- 3"]) (simp_all add: power_int_minus)
  moreover have "(1351079888211149 / 2 ^ 52) / 2 = (1351079888211149 / 2 ^ 53 :: real)" by simp
  ultimately show ?thesis
    by (simp add: double_add_0_1_0_2 double_div_def)
qed


section \<open>Properties of the latency tracker\<close>

text \<open>
  C9. When no sample has been recorded (\<open>sample_count_ = 0\<close>), \<open>get_stats\<close> returns
  sample count 0 and minimum 0, not the internal sentinel \<open>UINT64_MAX\<close>, and the
  maximum, the mean and the four percentiles are 0.
\<close>

theorem get_stats_empty:
  assumes "lt_sample_count t = 0"
  shows "get_stats t =
           Some \<lparr>st_min = 0, st_max = 0, st_mean = 0, st_p50 = 0, st_p95 = 0, st_p99 = 0,
                 st_p999 = 0, st_sample_count = 0\<rparr>
         \<and> map_option st_min (get_stats t) \<noteq> Some UINT64_MAX"
  using assms by (simp add: get_stats_def LatencyStats_default_def UINT64_MAX_def)

theorem get_stats_empty_witness:
  "lt_sample_count (reset_tracker (record_sample 1000 LatencyTracker_new)) = 0
   \<and> map_option st_min (get_stats (reset_tracker (record_sample 1000 LatencyTracker_new)))
       = Some 0
   \<and> map_option st_sample_count
         (get_stats (reset_tracker (record_sample 1000 LatencyTracker_new))) = Some 0"
  using get_stats_empty [of "reset_tracker (record_sample 1000 LatencyTracker_new)"]
  by (simp add: reset_tracker_def)

subsection \<open>The percentile scan\<close>

lemma cumulative_count_Cons_0: "cumulative_count (c # cs) 0 = c"
  by (simp add: cumulative_count_def)

lemma cumulative_count_Cons_Suc:
  "cumulative_count (c # cs) (Suc j) = c + cumulative_count cs j"
  by (simp add: cumulative_count_def)

lemma scan_buckets_Some:
  "scan_buckets cs i0 c0 tg = Some k \<Longrightarrow>
     i0 \<le> k \<and> k - i0 < length cs \<and> tg \<le> c0 + cumulative_count cs (k - i0)
     \<and> (\<forall>j < k - i0. c0 + cumulative_count cs j < tg)"
proof (induction cs arbitrary: i0 c0)
  case Nil
  then show ?case by simp
next
  case (Cons c cs)
  show ?case
  proof (cases "tg \<le> c0 + c")
    case True
    with Cons.prems have "k = i0" by simp
    with True show ?thesis by (simp add: cumulative_count_Cons_0)
  next
    case False
    with Cons.prems have rec: "scan_buckets cs (Suc i0) (c0 + c) tg = Some k" by simp
    from Cons.IH [OF rec] have ih: "Suc i0 \<le> k" "k - Suc i0 < length cs"
      "tg \<le> c0 + c + cumulative_count cs (k - Suc i0)"
      "\<forall>j < k - Suc i0. c0 + c + cumulative_count cs j < tg" by auto
    define m where "m = k - Suc i0"
    from ih(1) have m: "k - i0 = Suc m" by (simp add: m_def)
    have "\<forall>j < Suc m. c0 + cumulative_count (c # cs) j < tg"
    proof (intro allI impI)
      fix j assume "j < Suc m"
      show "c0 + cumulative_count (c # cs) j < tg"
      proof (cases j)
        case 0
        with False show ?thesis by (simp add: cumulative_count_Cons_0)
      next
        case (Suc j')
        with \<open>j < Suc m\<close> ih(4) show ?thesis
          by (simp add: cumulative_count_Cons_Suc add.assoc m_def)
      qed
    qed
    with ih m show ?thesis by (simp add: cumulative_count_Cons_Suc add.assoc m_def)
  qed
qed

lemma scan_buckets_None:
  "scan_buckets cs i0 c0 tg = None \<Longrightarrow> \<forall>j < length cs. c0 + cumulative_count cs j < tg"
proof (induction cs arbitrary: i0 c0)
  case Nil
  then show ?case by simp
next
  case (Cons c cs)
  from Cons.prems have nle: "\<not> tg \<le> c0 + c"
    and rec: "scan_buckets cs (Suc i0) (c0 + c) tg = None"
    by (simp_all add: Let_def split: if_splits)
  show ?case
  proof (intro allI impI)
    fix j assume j: "j < length (c # cs)"
    show "c0 + cumulative_count (c # cs) j < tg"
    proof (cases j)
      case 0
      with nle show ?thesis by (simp add: cumulative_count_Cons_0)
    next
      case (Suc j')
      with j Cons.IH [OF rec] show ?thesis
        by (simp add: cumulative_count_Cons_Suc add.assoc)
    qed
  qed
qed

subsection \<open>Evaluating scenario E6\<close>

lemma replicate_4: "replicate 4 x = [x, x, x, x]"
  by (simp add: numeral_eq_Suc)

lemma replicate_1000_split: "replicate 1000 (0::u64) = 0 # 0 # 0 # 0 # replicate 996 0"
proof -
  have "replicate (4 + 996) (0::u64) = replicate 4 0 @ replicate 996 0"
    by (rule replicate_add)
  then show ?thesis by (simp add: replicate_4)
qed

lemma record_sample_count: "lt_sample_count (record_sample x t) = lt_sample_count t + 1"
  by (simp add: record_sample_def Let_def)

lemma record_sample_max:
  "lt_max (record_sample x t) = (if x > lt_max t then x else lt_max t)"
  by (simp add: record_sample_def Let_def)

lemma record_sample_histogram:
  "histogram (record_sample x t) =
     (if x < MAX_TRACKED_NS
      then (histogram t)[unat (x div BUCKET_WIDTH_NS) :=
                           histogram t ! unat (x div BUCKET_WIDTH_NS) + 1]
      else histogram t)"
  by (simp add: record_sample_def Let_def)

lemma LatencyTracker_new_fields:
  "lt_sample_count LatencyTracker_new = 0"
  "lt_max LatencyTracker_new = 0"
  "histogram LatencyTracker_new = replicate 1000 0"
  by (simp_all add: LatencyTracker_new_def reset_tracker_def NUM_BUCKETS_def)

lemma e6_sample_count: "lt_sample_count e6_tracker = 3"
  by (simp add: e6_tracker_def record_sample_count LatencyTracker_new_fields)

lemma e6_histogram: "histogram e6_tracker = 0 # 1 # 1 # 1 # replicate 996 0"
  by (simp add: e6_tracker_def record_sample_histogram LatencyTracker_new_fields
        replicate_1000_split MAX_TRACKED_NS_def NUM_BUCKETS_def BUCKET_WIDTH_NS_def)

lemma e6_target: "percentile_target (Finite 50) 3 = Some 1"
  by (simp add: percentile_target_def double_div_50_100 double_of_u64_3 double_mul_half_3)

lemma e6_spec_target: "spec_percentile_target 50 3 = 2"
  by (simp add: spec_percentile_target_def)

lemma e6_percentile: "percentile_from_histogram (Finite 50) e6_tracker = Some 1500"
  by (simp add: percentile_from_histogram_def e6_sample_count e6_histogram e6_target
        NUM_BUCKETS_def bucket_midpoint_def BUCKET_WIDTH_NS_def)

lemma e6_spec_percentile: "spec_percentile 50 e6_tracker = 2500"
  by (simp add: spec_percentile_def e6_sample_count e6_histogram e6_spec_target
        NUM_BUCKETS_def bucket_midpoint_def BUCKET_WIDTH_NS_def word_le_nat_alt)

lemma replicate_1000_split6:
  "replicate 1000 (0::u64) = 0 # 0 # 0 # 0 # 0 # 0 # replicate 994 0"
proof -
  have "replicate (6 + 994) (0::u64) = replicate 6 0 @ replicate 994 0"
    by (rule replicate_add)
  then show ?thesis by (simp add: numeral_eq_Suc)
qed

lemma single_sample_count: "lt_sample_count single_tracker = 1"
  by (simp add: single_tracker_def record_sample_count LatencyTracker_new_fields)

lemma single_histogram: "histogram single_tracker = 0 # 0 # 0 # 0 # 0 # 1 # replicate 994 0"
  by (simp add: single_tracker_def record_sample_histogram LatencyTracker_new_fields
        replicate_1000_split6 MAX_TRACKED_NS_def NUM_BUCKETS_def BUCKET_WIDTH_NS_def)

lemma single_min: "lt_min single_tracker = 5000"
  by (simp add: single_tracker_def record_sample_def LatencyTracker_new_def reset_tracker_def
        UINT64_MAX_def Let_def)

lemma single_target: "percentile_target (Finite 50) 1 = Some 0"
  by (simp add: percentile_target_def double_div_50_100 double_of_u64_1 double_mul_half_1)

lemma single_spec_target: "spec_percentile_target 50 1 = 1"
proof -
  have "\<lceil>(1::real) / 2\<rceil> = 1" by (rule ceiling_unique) simp_all
  then show ?thesis by (simp add: spec_percentile_target_def)
qed

lemma single_percentile: "percentile_from_histogram (Finite 50) single_tracker = Some 500"
  by (simp add: percentile_from_histogram_def single_sample_count single_histogram
        single_target NUM_BUCKETS_def bucket_midpoint_def BUCKET_WIDTH_NS_def)

lemma single_spec_percentile: "spec_percentile 50 single_tracker = 5500"
  by (simp add: spec_percentile_def single_sample_count single_histogram single_spec_target
        NUM_BUCKETS_def bucket_midpoint_def BUCKET_WIDTH_NS_def word_le_nat_alt)

text \<open>
  What the scan computes. With at least one sample recorded and the target \<open>tg\<close>, the
  truncated product \<open>percentile / 100.0 * total\<close> (truncated, not rounded up), the
  percentile query returns the midpoint of the first bucket whose cumulative count is
  at least \<open>tg\<close>, and the observed maximum when no tracked bucket reaches it.
\<close>

lemma percentile_from_histogram_scan:
  assumes "lt_sample_count t \<noteq> 0"
    and "percentile_target p (lt_sample_count t) = Some tg"
  shows "(\<exists>i < length (take NUM_BUCKETS (histogram t)).
            tg \<le> cumulative_count (take NUM_BUCKETS (histogram t)) i
            \<and> (\<forall>j < i. cumulative_count (take NUM_BUCKETS (histogram t)) j < tg)
            \<and> percentile_from_histogram p t = Some (bucket_midpoint i))
         \<or> ((\<forall>j < length (take NUM_BUCKETS (histogram t)).
                cumulative_count (take NUM_BUCKETS (histogram t)) j < tg)
             \<and> percentile_from_histogram p t = Some (lt_max t))"
proof (cases "scan_buckets (take NUM_BUCKETS (histogram t)) 0 0 tg")
  case None
  from scan_buckets_None [OF None] assms None show ?thesis
    by (simp add: percentile_from_histogram_def)
next
  case (Some i)
  from scan_buckets_Some [OF Some] assms Some show ?thesis
    by (auto simp: percentile_from_histogram_def)
qed

text \<open>
  The target is computed in \<open>double\<close>: for the percentile 29.0 and 100 samples the
  quotient 29.0 / 100.0 is rounded down, the product with 100 is below 29 and the
  target is 28.
\<close>

lemma percentile_target_29_100: "percentile_target (Finite 29) 100 = Some 28"
proof -
  have r1: "round_even ((29 / 100) / 2 powi (- 2 - 52)) = 5224175567749775"
  proof -
    have "(29 / 100 :: real) / 2 powi (- 2 - 52) = 130604389193744384 / 25"
      by (simp add: power_int_minus)
    moreover have "\<lfloor>130604389193744384 / 25 :: real\<rfloor> = 5224175567749775" by simp
    ultimately show ?thesis by (simp add: round_even_def Let_def)
  qed
  have "double_round (29 / 100) = Finite (of_int 5224175567749775 * 2 powi (- 2 - 52))"
    by (rule double_round_normal [OF _ _ _ r1]) (simp_all add: power_int_minus)
  then have d: "double_div (Finite 29) (Finite 100) = Finite (5224175567749775 / 2 ^ 54)"
    by (simp add: double_div_def power_int_minus)
  have h: "double_of_u64 100 = Finite 100"
  proof -
    have "double_round 100 = Finite 100"
      by (rule double_round_exact [of _ "25 * 2 ^ 48" 6]) (simp_all add: power_int_minus)
    then show ?thesis by (simp add: double_of_u64_def)
  qed
  let ?x = "5224175567749775 / 2 ^ 54 * 100 :: real"
  have r2: "round_even (?x / 2 powi (4 - 52)) = 8162774324609023"
  proof -
    have "?x / 2 powi (4 - 52) = 130604389193744375 / 16"
      by (simp add: power_int_minus)
    moreover have "\<lfloor>130604389193744375 / 16 :: real\<rfloor> = 8162774324609023" by simp
    ultimately show ?thesis by (simp add: round_even_def Let_def)
  qed
  have "double_round ?x = Finite (of_int 8162774324609023 * 2 powi (4 - 52))"
    by (rule double_round_normal [OF _ _ _ r2]) (simp_all add: power_int_minus)
  then have m: "double_mul (Finite (5224175567749775 / 2 ^ 54)) (Finite 100)
                  = Finite (8162774324609023 / 2 ^ 48)"
    by (simp add: double_mul_def power_int_minus)
  have "\<lfloor>8162774324609023 / 2 ^ 48 :: real\<rfloor> = 28" by simp
  then have "u64_of_double (Finite (8162774324609023 / 2 ^ 48)) = Some 28" by simp
  then show ?thesis by (simp only: percentile_target_def d h m)
qed

text \<open>
  C6. The percentile is to be the midpoint of the bucket in which the cumulative count
  first reaches \<open>\<lceil>p \<cdot> total\<rceil>\<close>. The code truncates the target instead. On the samples
  1000, 2000, 3000 ns the 50th percentile is 1500, the midpoint of bucket 1 where the
  cumulative count is 1, not 2; the stated rule gives 2500. On the single sample
  5000 ns the target is 0 and the answer is 500, the midpoint of the empty bucket 0,
  below the recorded minimum; the stated rule gives 5500.
\<close>

theorem percentile_ceiling_counterexample:
  "percentile_from_histogram (Finite 50) e6_tracker = Some 1500
   \<and> spec_percentile 50 e6_tracker = 2500
   \<and> percentile_from_histogram (Finite 50) single_tracker = Some 500
   \<and> lt_min single_tracker = 5000
   \<and> spec_percentile 50 single_tracker = 5500"
  by (simp add: e6_percentile e6_spec_percentile single_percentile single_min
        single_spec_percentile)

section \<open>Properties of the symbol cache\<close>

lemma length_apply_store [simp]: "length (apply_store s es) = length es"
  by (cases s) simp_all

lemma perform_simps [simp]:
  "num_symbols (perform s c) = num_symbols c"
  "store_log (perform s c) = store_log c @ [s]"
  "entries (perform s c) = apply_store s (entries c)"
  by (simp_all add: perform_def)

lemma replay_append: "replay (xs @ ys) c = replay ys (replay xs c)"
  by (induction xs arbitrary: c) simp_all

lemma store_log_replay: "store_log (replay ss c) = store_log c @ ss"
  by (induction ss arbitrary: c) simp_all

lemma num_symbols_replay [simp]: "num_symbols (replay ss c) = num_symbols c"
  by (induction ss arbitrary: c) simp_all

lemma length_entries_replay [simp]: "length (entries (replay ss c)) = length (entries c)"
  by (induction ss arbitrary: c) simp_all

text \<open>A store to a field leaves every counter as it is.\<close>

lemma sequence_field_store:
  "is_field_store i s \<Longrightarrow> sequence (apply_store s es ! j) = sequence (es ! j)"
proof (cases s)
  case (Seq_store k v)
  assume "is_field_store i s"
  with Seq_store show ?thesis by simp
next
  case (State_store k f)
  show ?thesis
  proof (cases "k < length es")
    case True
    with State_store show ?thesis by (simp add: nth_list_update)
  next
    case False
    then have "es[k := (es ! k)\<lparr>state := assign f (state (es ! k))\<rparr>] = es"
      by (simp add: list_update_beyond)
    with State_store show ?thesis by simp
  qed
qed

lemma sequence_replay_fields:
  "list_all (is_field_store i) ss \<Longrightarrow>
   sequence (entries (replay ss c) ! j) = sequence (entries c ! j)"
proof (induction ss arbitrary: c)
  case Nil
  show ?case by simp
next
  case (Cons a ss)
  from Cons.prems have a: "is_field_store i a" and ss: "list_all (is_field_store i) ss"
    by simp_all
  from Cons.IH [OF ss, of "perform a c"] sequence_field_store [OF a, of "entries c" j]
  show ?case by simp
qed

text \<open>The statements of a writer between the two counter stores are field stores.\<close>

lemma traced_step:
  assumes "\<exists>ss. c' = replay ss c \<and> ss \<noteq> [] \<and> list_all P ss" and "P s"
  shows "\<exists>ss. perform s c' = replay ss c \<and> ss \<noteq> [] \<and> list_all P ss"
proof -
  from assms(1) obtain ss where "c' = replay ss c" "list_all P ss" by blast
  with assms(2) have "perform s c' = replay (ss @ [s]) c \<and> ss @ [s] \<noteq> [] \<and> list_all P (ss @ [s])"
    by (simp add: replay_append)
  then show ?thesis by blast
qed

lemma traced_first:
  assumes "P s"
  shows "\<exists>ss. perform s c = replay ss c \<and> ss \<noteq> [] \<and> list_all P ss"
proof -
  from assms have "perform s c = replay [s] c \<and> [s] \<noteq> [] \<and> list_all P [s]" by simp
  then show ?thesis by blast
qed

lemma quote_fields_traced:
  "\<exists>ss. quote_fields i bp bq ap aq ts c = replay ss c \<and> ss \<noteq> []
        \<and> list_all (is_field_store i) ss"
  unfolding quote_fields_def Let_def
  by (auto intro!: traced_step traced_first)

lemma trade_fields_traced:
  "\<exists>ss. trade_fields i p q ts c = replay ss c \<and> ss \<noteq> [] \<and> list_all (is_field_store i) ss"
  unfolding trade_fields_def Let_def
  by (auto intro!: traced_step traced_first)

lemma bid_fields_traced:
  "\<exists>ss. bid_fields i p q ts c = replay ss c \<and> ss \<noteq> [] \<and> list_all (is_field_store i) ss"
  unfolding bid_fields_def Let_def
  by (auto intro!: traced_step traced_first)

lemma ask_fields_traced:
  "\<exists>ss. ask_fields i p q ts c = replay ss c \<and> ss \<noteq> [] \<and> list_all (is_field_store i) ss"
  unfolding ask_fields_def Let_def
  by (auto intro!: traced_step traced_first)

subsection \<open>The shape of a writer operation\<close>

lemma begin_write_perform:
  "unat sid < num_symbols c \<Longrightarrow>
   begin_write sid c = perform (Seq_store (unat sid) (sequence (entry_of c sid) + 1)) c"
  by (simp add: begin_write_def Let_def entry_of_def)

lemma end_write_perform:
  "unat sid < num_symbols c \<Longrightarrow>
   end_write sid c = perform (Seq_store (unat sid) (sequence (entry_of c sid) + 1)) c"
  by (simp add: end_write_def Let_def entry_of_def)

lemma writer_shape:
  assumes lt: "unat sid < num_symbols c" and wf: "cache_wf c"
    and f: "\<And>c'. \<exists>ss. f c' = replay ss c' \<and> ss \<noteq> []
                     \<and> list_all (is_field_store (unat sid)) ss"
  shows "\<exists>payload.
           end_write sid (f (begin_write sid c))
             = replay (Seq_store (unat sid) (sequence (entry_of c sid) + 1) # payload
                       @ [Seq_store (unat sid) (sequence (entry_of c sid) + 2)]) c
           \<and> payload \<noteq> [] \<and> list_all (is_field_store (unat sid)) payload"
proof -
  let ?i = "unat sid"
  let ?s = "sequence (entry_of c sid)"
  let ?c1 = "perform (Seq_store ?i (?s + 1)) c"
  from lt wf have len: "?i < length (entries c)" by (simp add: cache_wf_def)
  have b: "begin_write sid c = ?c1" by (rule begin_write_perform [OF lt])
  from f [of ?c1] obtain ss where ss: "f ?c1 = replay ss ?c1" "ss \<noteq> []"
    "list_all (is_field_store ?i) ss" by blast
  have "sequence (entries (replay ss ?c1) ! ?i) = sequence (entries ?c1 ! ?i)"
    by (rule sequence_replay_fields [OF ss(3)])
  also have "\<dots> = ?s + 1" using len by simp
  finally have seq: "sequence (entry_of (replay ss ?c1) sid) = ?s + 1"
    by (simp add: entry_of_def)
  have "end_write sid (replay ss ?c1)
          = perform (Seq_store ?i (sequence (entry_of (replay ss ?c1) sid) + 1)) (replay ss ?c1)"
    by (rule end_write_perform) (simp add: lt)
  also have "\<dots> = perform (Seq_store ?i (?s + 2)) (replay ss ?c1)"
  proof -
    have "?s + 1 + 1 = ?s + 2" by simp
    then show ?thesis by (simp only: seq)
  qed
  also have "\<dots> = replay (Seq_store ?i (?s + 1) # ss @ [Seq_store ?i (?s + 2)]) c"
    by (simp add: replay_append)
  finally have "end_write sid (f (begin_write sid c))
                  = replay (Seq_store ?i (?s + 1) # ss @ [Seq_store ?i (?s + 2)]) c"
    by (simp add: b ss(1))
  with ss(2,3) show ?thesis by blast
qed

lemma apply_op_out_of_range:
  "num_symbols c \<le> unat (op_symbol w) \<Longrightarrow> apply_op w c = c"
  by (cases w) (simp_all add: update_quote_def update_trade_def update_bid_def update_ask_def)

lemma apply_op_shape:
  assumes wf: "cache_wf c" and lt: "unat (op_symbol w) < num_symbols c"
  shows "\<exists>payload.
           apply_op w c
             = replay (Seq_store (unat (op_symbol w)) (sequence (entry_of c (op_symbol w)) + 1)
                       # payload
                       @ [Seq_store (unat (op_symbol w))
                            (sequence (entry_of c (op_symbol w)) + 2)]) c
           \<and> payload \<noteq> [] \<and> list_all (is_field_store (unat (op_symbol w))) payload"
proof (cases w)
  case (Quote_op sid bp bq ap aq ts)
  with lt have l: "unat sid < num_symbols c" by simp
  from writer_shape [of sid c "quote_fields (unat sid) bp bq ap aq ts", OF l wf quote_fields_traced] l Quote_op
  show ?thesis by (simp add: update_quote_def)
next
  case (Trade_op sid p q ts)
  with lt have l: "unat sid < num_symbols c" by simp
  from writer_shape [of sid c "trade_fields (unat sid) p q ts", OF l wf trade_fields_traced] l Trade_op
  show ?thesis by (simp add: update_trade_def)
next
  case (Bid_op sid p q ts)
  with lt have l: "unat sid < num_symbols c" by simp
  from writer_shape [of sid c "bid_fields (unat sid) p q ts", OF l wf bid_fields_traced] l Bid_op
  show ?thesis by (simp add: update_bid_def)
next
  case (Ask_op sid p q ts)
  with lt have l: "unat sid < num_symbols c" by simp
  from writer_shape [of sid c "ask_fields (unat sid) p q ts", OF l wf ask_fields_traced] l Ask_op
  show ?thesis by (simp add: update_ask_def)
qed

text \<open>The counters while such a list of stores is made, and after it.\<close>

lemma sequence_during:
  assumes len: "i < length (entries c)" and fs: "list_all (is_field_store i) payload"
    and k: "0 < k" "k < length (Seq_store i v # payload @ [b])"
  shows "sequence (entries (replay (take k (Seq_store i v # payload @ [b])) c) ! i) = v"
proof -
  from k obtain k' where k': "k = Suc k'" "k' \<le> length payload"
    by (cases k) simp_all
  then have tk: "take k (Seq_store i v # payload @ [b]) = Seq_store i v # take k' payload"
    by simp
  from fs have "list_all (is_field_store i) (take k' payload)"
    by (auto simp: list_all_iff dest: in_set_takeD)
  from sequence_replay_fields [OF this, of "perform (Seq_store i v) c" i] len
  show ?thesis by (simp add: tk)
qed

lemma sequence_after:
  assumes len: "i < length (entries c)" and fs: "list_all (is_field_store i) payload"
  shows "sequence (entries (replay (Seq_store i v # payload @ [Seq_store i v']) c) ! j)
           = (if j = i then v' else sequence (entries c ! j))"
proof -
  let ?c1 = "perform (Seq_store i v) c"
  have 1: "sequence (entries (replay payload ?c1) ! j) = sequence (entries ?c1 ! j)"
    by (rule sequence_replay_fields [OF fs])
  have 2: "i < length (entries (replay payload ?c1))" using len by simp
  show ?thesis
  proof (cases "j = i")
    case True
    with 2 show ?thesis by (simp add: replay_append)
  next
    case False
    with 1 2 len show ?thesis by (simp add: replay_append nth_list_update)
  qed
qed

lemma cache_wf_apply_op: "cache_wf c \<Longrightarrow> cache_wf (apply_op w c)"
proof (cases "unat (op_symbol w) < num_symbols c")
  case True
  assume wf: "cache_wf c"
  from apply_op_shape [OF wf True] obtain payload ss where
    "apply_op w c = replay ss c" by blast
  with wf show ?thesis by (simp add: cache_wf_def)
next
  case False
  assume "cache_wf c"
  with False show ?thesis by (simp add: apply_op_out_of_range)
qed

lemma cache_wf_apply_ops: "cache_wf c \<Longrightarrow> cache_wf (apply_ops ws c)"
  by (induction ws arbitrary: c) (simp_all add: cache_wf_apply_op)

lemma even_apply_op:
  assumes wf: "cache_wf c" and ev: "\<forall>i < MAX_SYMBOLS. even (sequence (entries c ! i))"
  shows "\<forall>i < MAX_SYMBOLS. even (sequence (entries (apply_op w c) ! i))"
proof (cases "unat (op_symbol w) < num_symbols c")
  case False
  with ev show ?thesis by (simp add: apply_op_out_of_range)
next
  case True
  let ?i = "unat (op_symbol w)"
  from wf True have len: "?i < length (entries c)" and lt: "?i < MAX_SYMBOLS"
    by (simp_all add: cache_wf_def)
  from apply_op_shape [OF wf True] obtain payload where
    p: "apply_op w c
          = replay (Seq_store ?i (sequence (entry_of c (op_symbol w)) + 1) # payload
                    @ [Seq_store ?i (sequence (entry_of c (op_symbol w)) + 2)]) c"
       "list_all (is_field_store ?i) payload" by blast
  from ev lt have "even (sequence (entry_of c (op_symbol w)))" by (simp add: entry_of_def)
  with ev show ?thesis
    unfolding p(1) by (simp add: sequence_after [OF len p(2)] del: replay.simps)
qed

lemma even_apply_ops:
  assumes "cache_wf c" "\<forall>i < MAX_SYMBOLS. even (sequence (entries c ! i))"
  shows "\<forall>i < MAX_SYMBOLS. even (sequence (entries (apply_ops ws c) ! i))"
  using assms
proof (induction ws arbitrary: c)
  case Nil
  then show ?case by simp
next
  case (Cons w ws)
  from Cons.prems have "cache_wf (apply_op w c)"
    and "\<forall>i < MAX_SYMBOLS. even (sequence (entries (apply_op w c) ! i))"
    by (simp_all add: cache_wf_apply_op even_apply_op)
  from Cons.IH [OF this] show ?case by simp
qed

lemma cache_wf_new: "cache_wf (SymbolCache_new n)"
  by (simp add: cache_wf_def SymbolCache_new_def reset_cache_def)

lemma entries_new:
  "i < MAX_SYMBOLS \<Longrightarrow>
   entries (SymbolCache_new n) ! i = \<lparr>sequence = 0, state = MarketState_default\<rparr>"
  by (simp add: SymbolCache_new_def reset_cache_def)

lemma num_symbols_new: "num_symbols (SymbolCache_new n) = min n MAX_SYMBOLS"
  by (simp add: SymbolCache_new_def reset_cache_def)

text \<open>
  C4. In every cache reached from a new one by writer operations (no write in
  progress) the sequence counter of every entry is even. A writer operation on an
  in-range symbol whose counter is \<open>s\<close> makes exactly these stores, in this order: the
  store of \<open>s + 1\<close> to the counter, then one or more stores to the payload fields of
  the entry, then the store of \<open>s + 2\<close> to the counter; the cache after the operation
  is the result of these stores. After the first store and before the last, that is
  while the payload is written, the counter is \<open>s + 1\<close>, which is odd. After the
  operation it is \<open>s + 2\<close>, even again: the counter grows by exactly 2 per applied
  update (in 64-bit arithmetic).
\<close>

theorem seqlock_write_protocol:
  assumes "c = apply_ops ws (SymbolCache_new n)"
    and "unat (op_symbol w) < num_symbols c"
  shows "(\<forall>i < MAX_SYMBOLS. even (sequence (entries c ! i)))
       \<and> store_log (apply_op w c) = store_log c @ written w c
       \<and> apply_op w c = replay (written w c) c
       \<and> (\<exists>payload.
            written w c
              = Seq_store (unat (op_symbol w)) (sequence (entry_of c (op_symbol w)) + 1)
                # payload
                @ [Seq_store (unat (op_symbol w)) (sequence (entry_of c (op_symbol w)) + 2)]
            \<and> payload \<noteq> [] \<and> list_all (is_field_store (unat (op_symbol w))) payload)
       \<and> (\<forall>k. 0 < k \<and> k < length (written w c) \<longrightarrow>
             sequence (entry_of (replay (take k (written w c)) c) (op_symbol w))
               = sequence (entry_of c (op_symbol w)) + 1
             \<and> odd (sequence (entry_of (replay (take k (written w c)) c) (op_symbol w))))
       \<and> sequence (entry_of (apply_op w c) (op_symbol w))
           = sequence (entry_of c (op_symbol w)) + 2
       \<and> even (sequence (entry_of (apply_op w c) (op_symbol w)))"
proof -
  let ?sid = "op_symbol w"
  let ?i = "unat ?sid"
  let ?s = "sequence (entry_of c ?sid)"
  have wf: "cache_wf c"
    using assms(1) by (simp add: cache_wf_apply_ops cache_wf_new)
  have ev: "\<forall>i < MAX_SYMBOLS. even (sequence (entries c ! i))"
    unfolding assms(1)
    by (rule even_apply_ops) (simp_all add: cache_wf_new entries_new)
  from wf assms(2) have lt: "?i < MAX_SYMBOLS" and len: "?i < length (entries c)"
    by (simp_all add: cache_wf_def)
  from ev lt have ev_s: "even ?s" by (simp add: entry_of_def)
  from apply_op_shape [OF wf assms(2)] obtain payload where
    p: "apply_op w c = replay (Seq_store ?i (?s + 1) # payload @ [Seq_store ?i (?s + 2)]) c"
       "payload \<noteq> []" "list_all (is_field_store ?i) payload" by blast
  have wr: "written w c = Seq_store ?i (?s + 1) # payload @ [Seq_store ?i (?s + 2)]"
    by (simp add: written_def p(1) store_log_replay)
  have lg: "store_log (apply_op w c) = store_log c @ written w c"
    by (simp add: wr p(1) store_log_replay)
  have rp: "apply_op w c = replay (written w c) c"
    by (simp only: wr p(1))
  have during: "\<forall>k. 0 < k \<and> k < length (written w c) \<longrightarrow>
             sequence (entry_of (replay (take k (written w c)) c) ?sid) = ?s + 1
             \<and> odd (sequence (entry_of (replay (take k (written w c)) c) ?sid))"
  proof (intro allI impI)
    fix k assume k: "0 < k \<and> k < length (written w c)"
    then have "sequence (entries (replay (take k
                 (Seq_store ?i (?s + 1) # payload @ [Seq_store ?i (?s + 2)])) c) ! ?i) = ?s + 1"
      unfolding wr by (intro sequence_during [OF len p(3)]) simp_all
    with ev_s show "sequence (entry_of (replay (take k (written w c)) c) ?sid) = ?s + 1
             \<and> odd (sequence (entry_of (replay (take k (written w c)) c) ?sid))"
      by (simp add: wr entry_of_def)
  qed
  have after: "sequence (entry_of (apply_op w c) ?sid) = ?s + 2"
    unfolding p(1) entry_of_def by (simp add: sequence_after [OF len p(3)] del: replay.simps)
  from ev lg rp wr p(2,3) during after ev_s show ?thesis by simp
qed

theorem seqlock_write_protocol_witness:
  "SymbolCache_new 500 = apply_ops [] (SymbolCache_new 500)
   \<and> unat (op_symbol (Quote_op 7 (Finite 100) 10 (Finite 101) 20 1))
       < num_symbols (SymbolCache_new 500)
   \<and> sequence (entry_of (replay
         (take 1 (written (Quote_op 7 (Finite 100) 10 (Finite 101) 20 1) (SymbolCache_new 500)))
         (SymbolCache_new 500)) 7) = 1
   \<and> sequence (entry_of (apply_op (Quote_op 7 (Finite 100) 10 (Finite 101) 20 1)
                            (SymbolCache_new 500)) 7) = 2"
proof -
  let ?w = "Quote_op 7 (Finite 100) 10 (Finite 101) 20 1"
  let ?c = "SymbolCache_new 500"
  have a: "?c = apply_ops [] ?c" by simp
  have h: "unat (op_symbol ?w) < num_symbols ?c"
    by (simp add: num_symbols_new MAX_SYMBOLS_def)
  have z: "sequence (entry_of ?c 7) = 0"
    by (simp add: entry_of_def entries_new MAX_SYMBOLS_def)
  note t = seqlock_write_protocol [OF a h]
  from t obtain payload where
    "written ?w ?c = Seq_store (unat (op_symbol ?w)) (sequence (entry_of ?c (op_symbol ?w)) + 1)
       # payload @ [Seq_store (unat (op_symbol ?w)) (sequence (entry_of ?c (op_symbol ?w)) + 2)]"
    by blast
  then have l: "0 < (1::nat) \<and> 1 < length (written ?w ?c)" by simp
  from t have "\<forall>k. 0 < k \<and> k < length (written ?w ?c) \<longrightarrow>
         sequence (entry_of (replay (take k (written ?w ?c)) ?c) (op_symbol ?w))
           = sequence (entry_of ?c (op_symbol ?w)) + 1" by blast
  with l have d: "sequence (entry_of (replay (take 1 (written ?w ?c)) ?c) (op_symbol ?w))
           = sequence (entry_of ?c (op_symbol ?w)) + 1" by blast
  from t have e: "sequence (entry_of (apply_op ?w ?c) (op_symbol ?w))
                    = sequence (entry_of ?c (op_symbol ?w)) + 2" by blast
  from a h d e z show ?thesis by simp
qed

subsection \<open>What a writer operation does to the payload\<close>

lemma state_apply_field:
  "i < length es \<Longrightarrow>
   state (apply_store (State_store i f) es ! i) = assign f (state (es ! i))"
  by simp

lemma state_apply_seq: "state (apply_store (Seq_store i v) es ! j) = state (es ! j)"
proof (cases "i < length es")
  case True
  then show ?thesis by (simp add: nth_list_update)
next
  case False
  then have "es[i := (es ! i)\<lparr>sequence := v\<rparr>] = es" by (simp add: list_update_beyond)
  then show ?thesis by simp
qed

lemma state_begin_write: "state (entries (begin_write sid c) ! j) = state (entries c ! j)"
  by (simp add: begin_write_def Let_def state_apply_seq del: apply_store.simps)

lemma state_end_write: "state (entries (end_write sid c) ! j) = state (entries c ! j)"
  by (simp add: end_write_def Let_def state_apply_seq del: apply_store.simps)

lemma length_entries_begin_write [simp]:
  "length (entries (begin_write sid c)) = length (entries c)"
  by (simp add: begin_write_def Let_def del: apply_store.simps)

lemma state_quote_fields:
  assumes "i < length (entries c)"
  shows "state (entries (quote_fields i bp bq ap aq ts c) ! i)
           = (let st = state (entries c ! i);
                  st1 = st\<lparr>best_bid := bp, bid_quantity := bq, best_ask := ap,
                            ask_quantity := aq, last_update_time := ts,
                            update_count := update_count st + 1\<rparr>
              in if double_eq (opening_price st) (Finite 0)
                 then st1\<lparr>opening_price := double_div (double_add bp ap) (Finite 2)\<rparr>
                 else st1)"
  using assms
  by (simp add: quote_fields_def Let_def state_apply_field del: apply_store.simps)

lemma state_trade_fields:
  assumes "i < length (entries c)"
  shows "state (entries (trade_fields i p q ts c) ! i)
           = (let st = state (entries c ! i);
                  st1 = st\<lparr>last_traded_price := p, last_traded_quantity := q,
                            last_update_time := ts, update_count := update_count st + 1\<rparr>
              in if double_eq (opening_price st) (Finite 0)
                 then st1\<lparr>opening_price := p\<rparr>
                 else st1)"
  using assms
  by (simp add: trade_fields_def Let_def state_apply_field del: apply_store.simps)

lemma state_bid_fields:
  assumes "i < length (entries c)"
  shows "state (entries (bid_fields i p q ts c) ! i)
           = (state (entries c ! i))
               \<lparr>best_bid := p, bid_quantity := q, last_update_time := ts,
                update_count := update_count (state (entries c ! i)) + 1\<rparr>"
  using assms
  by (simp add: bid_fields_def Let_def state_apply_field del: apply_store.simps)

lemma state_ask_fields:
  assumes "i < length (entries c)"
  shows "state (entries (ask_fields i p q ts c) ! i)
           = (state (entries c ! i))
               \<lparr>best_ask := p, ask_quantity := q, last_update_time := ts,
                update_count := update_count (state (entries c ! i)) + 1\<rparr>"
  using assms
  by (simp add: ask_fields_def Let_def state_apply_field del: apply_store.simps)

lemma state_update_quote:
  assumes "cache_wf c" "unat sid < num_symbols c"
  shows "state (entry_of (update_quote sid bp bq ap aq ts c) sid)
           = (let st = state (entry_of c sid);
                  st1 = st\<lparr>best_bid := bp, bid_quantity := bq, best_ask := ap,
                            ask_quantity := aq, last_update_time := ts,
                            update_count := update_count st + 1\<rparr>
              in if double_eq (opening_price st) (Finite 0)
                 then st1\<lparr>opening_price := double_div (double_add bp ap) (Finite 2)\<rparr>
                 else st1)"
proof -
  from assms have "unat sid < length (entries (begin_write sid c))"
    by (simp add: cache_wf_def)
  from state_quote_fields [OF this] assms(2) show ?thesis
    by (simp only: update_quote_def entry_of_def state_end_write state_begin_write
          not_le [symmetric] if_False)
qed

lemma state_update_trade:
  assumes "cache_wf c" "unat sid < num_symbols c"
  shows "state (entry_of (update_trade sid p q ts c) sid)
           = (let st = state (entry_of c sid);
                  st1 = st\<lparr>last_traded_price := p, last_traded_quantity := q,
                            last_update_time := ts, update_count := update_count st + 1\<rparr>
              in if double_eq (opening_price st) (Finite 0)
                 then st1\<lparr>opening_price := p\<rparr>
                 else st1)"
proof -
  from assms have "unat sid < length (entries (begin_write sid c))"
    by (simp add: cache_wf_def)
  from state_trade_fields [OF this] assms(2) show ?thesis
    by (simp only: update_trade_def entry_of_def state_end_write state_begin_write
          not_le [symmetric] if_False)
qed

lemma state_update_bid:
  assumes "cache_wf c" "unat sid < num_symbols c"
  shows "state (entry_of (update_bid sid p q ts c) sid)
           = (state (entry_of c sid))
               \<lparr>best_bid := p, bid_quantity := q, last_update_time := ts,
                update_count := update_count (state (entry_of c sid)) + 1\<rparr>"
proof -
  from assms have "unat sid < length (entries (begin_write sid c))"
    by (simp add: cache_wf_def)
  from state_bid_fields [OF this] assms(2) show ?thesis
    by (simp only: update_bid_def entry_of_def state_end_write state_begin_write
          not_le [symmetric] if_False)
qed

lemma state_update_ask:
  assumes "cache_wf c" "unat sid < num_symbols c"
  shows "state (entry_of (update_ask sid p q ts c) sid)
           = (state (entry_of c sid))
               \<lparr>best_ask := p, ask_quantity := q, last_update_time := ts,
                update_count := update_count (state (entry_of c sid)) + 1\<rparr>"
proof -
  from assms have "unat sid < length (entries (begin_write sid c))"
    by (simp add: cache_wf_def)
  from state_ask_fields [OF this] assms(2) show ?thesis
    by (simp only: update_ask_def entry_of_def state_end_write state_begin_write
          not_le [symmetric] if_False)
qed

lemma new_entry_state:
  "unat sid < MAX_SYMBOLS \<Longrightarrow> state (entry_of (SymbolCache_new n) sid) = MarketState_default"
  by (simp add: entry_of_def entries_new)

lemma new_500_in_range:
  "unat sid < 500 \<Longrightarrow> unat sid < num_symbols (SymbolCache_new 500)"
  by (simp add: num_symbols_new MAX_SYMBOLS_def)

text \<open>
  C5, as stated, fails: \<open>update_bid\<close> on a new cache (opening price unset, that is
  0.0) with the price 100 bumps the update count and sets the bid, and leaves the
  opening price unset.
\<close>

theorem update_bid_opening_counterexample:
  "double_eq (opening_price (state (entry_of (SymbolCache_new 500) 0))) (Finite 0)
   \<and> update_count (state (entry_of (update_bid 0 (Finite 100) 10 1 (SymbolCache_new 500)) 0)) = 1
   \<and> best_bid (state (entry_of (update_bid 0 (Finite 100) 10 1 (SymbolCache_new 500)) 0))
       = Finite 100
   \<and> opening_price (state (entry_of (update_bid 0 (Finite 100) 10 1 (SymbolCache_new 500)) 0))
       = Finite 0"
proof -
  have "unat (0::u16) < num_symbols (SymbolCache_new 500)"
    by (rule new_500_in_range) simp
  from state_update_bid [OF cache_wf_new this] show ?thesis
    by (simp add: new_entry_state MAX_SYMBOLS_def MarketState_default_def double_eq_def)
qed

text \<open>
  The opening price of a first quote is the midpoint as \<open>double\<close> arithmetic gives it,
  which need not be the exact midpoint: for the bid 0.1 and the ask 0.2 it is
  \<open>1351079888211149 / 2\<^sup>5\<^sup>3\<close>, above \<open>(0.1 + 0.2) / 2\<close>.
\<close>

lemma quote_midpoint_rounded:
  "opening_price (state (entry_of
      (update_quote 0 double_0_1 10 double_0_2 20 1 (SymbolCache_new 500)) 0))
     = Finite (1351079888211149 / 2 ^ 53)
   \<and> (double_value double_0_1 + double_value double_0_2) / 2 < 1351079888211149 / 2 ^ 53"
proof -
  have "unat (0::u16) < num_symbols (SymbolCache_new 500)"
    by (rule new_500_in_range) simp
  from state_update_quote [OF cache_wf_new this]
  have "opening_price (state (entry_of
          (update_quote 0 double_0_1 10 double_0_2 20 1 (SymbolCache_new 500)) 0))
        = Finite (1351079888211149 / 2 ^ 53)"
    by (simp add: new_entry_state MAX_SYMBOLS_def MarketState_default_def double_eq_def
          double_mid_0_1_0_2)
  moreover have "(double_value double_0_1 + double_value double_0_2) / 2
                   < 1351079888211149 / 2 ^ 53"
    by (simp add: double_0_1_def double_0_2_def)
  ultimately show ?thesis by simp
qed

text \<open>
  C5, amended. Each of the four writer operations, on an in-range symbol, bumps
  \<open>update_count\<close> by exactly 1 and sets \<open>last_update_time\<close> to its time stamp.
  \<open>update_quote\<close> and \<open>update_trade\<close> set the opening price when it is unset (it
  compares equal to 0.0): to the midpoint \<open>(bid_price + ask_price) / 2.0\<close> of the quote
  as \<open>double\<close> arithmetic computes it, respectively to the price of the trade.
  \<open>update_bid\<close> and \<open>update_ask\<close> never change the opening price. No writer operation
  changes an opening price that does not compare equal to 0.0.
\<close>

theorem writer_payload_effect:
  assumes "cache_wf c" and "unat (op_symbol w) < num_symbols c"
  shows "update_count (state (entry_of (apply_op w c) (op_symbol w)))
           = update_count (state (entry_of c (op_symbol w))) + 1
       \<and> (case w of
             Quote_op s bp bq ap aq ts \<Rightarrow>
               last_update_time (state (entry_of (apply_op w c) s)) = ts
               \<and> opening_price (state (entry_of (apply_op w c) s))
                   = (if double_eq (opening_price (state (entry_of c s))) (Finite 0)
                      then double_div (double_add bp ap) (Finite 2)
                      else opening_price (state (entry_of c s)))
           | Trade_op s p q ts \<Rightarrow>
               last_update_time (state (entry_of (apply_op w c) s)) = ts
               \<and> opening_price (state (entry_of (apply_op w c) s))
                   = (if double_eq (opening_price (state (entry_of c s))) (Finite 0) then p
                      else opening_price (state (entry_of c s)))
           | Bid_op s p q ts \<Rightarrow>
               last_update_time (state (entry_of (apply_op w c) s)) = ts
               \<and> opening_price (state (entry_of (apply_op w c) s))
                   = opening_price (state (entry_of c s))
           | Ask_op s p q ts \<Rightarrow>
               last_update_time (state (entry_of (apply_op w c) s)) = ts
               \<and> opening_price (state (entry_of (apply_op w c) s))
                   = opening_price (state (entry_of c s)))
       \<and> (\<not> double_eq (opening_price (state (entry_of c (op_symbol w)))) (Finite 0) \<longrightarrow>
            opening_price (state (entry_of (apply_op w c) (op_symbol w)))
              = opening_price (state (entry_of c (op_symbol w))))"
proof (cases w)
  case (Quote_op s bp bq ap aq ts)
  with assms(2) have "unat s < num_symbols c" by simp
  from state_update_quote [OF assms(1) this] Quote_op show ?thesis
    by (simp add: Let_def)
next
  case (Trade_op s p q ts)
  with assms(2) have "unat s < num_symbols c" by simp
  from state_update_trade [OF assms(1) this] Trade_op show ?thesis
    by (simp add: Let_def)
next
  case (Bid_op s p q ts)
  with assms(2) have "unat s < num_symbols c" by simp
  from state_update_bid [OF assms(1) this] Bid_op show ?thesis by simp
next
  case (Ask_op s p q ts)
  with assms(2) have "unat s < num_symbols c" by simp
  from state_update_ask [OF assms(1) this] Ask_op show ?thesis by simp
qed

theorem writer_payload_effect_witness:
  "cache_wf (SymbolCache_new 500)
   \<and> unat (op_symbol (Quote_op 7 (Finite 100) 10 (Finite 101) 20 1))
       < num_symbols (SymbolCache_new 500)
   \<and> update_count (state (entry_of (apply_op (Quote_op 7 (Finite 100) 10 (Finite 101) 20 1)
                                       (SymbolCache_new 500)) 7)) = 1
   \<and> opening_price (state (entry_of (apply_op (Quote_op 7 (Finite 100) 10 (Finite 101) 20 1)
                                        (SymbolCache_new 500)) 7)) = Finite (201 / 2)"
proof -
  let ?w = "Quote_op 7 (Finite 100) 10 (Finite 101) 20 1"
  have h: "unat (op_symbol ?w) < num_symbols (SymbolCache_new 500)"
    by (simp add: num_symbols_new MAX_SYMBOLS_def)
  have z: "state (entry_of (SymbolCache_new 500) 7) = MarketState_default"
    by (simp add: entry_of_def entries_new MAX_SYMBOLS_def)
  from writer_payload_effect [OF cache_wf_new h] z cache_wf_new h
  show ?thesis
    by (simp add: MarketState_default_def double_eq_def double_mid_100_101)
qed


section \<open>Properties of the memory pool\<close>

lemma reset_pool_geometry:
  "block_size (reset_pool pool) = block_size pool"
  "num_blocks (reset_pool pool) = num_blocks pool"
  "aligned_base (reset_pool pool) = aligned_base pool"
  "allocated_count (reset_pool pool) = 0"
  by (simp_all add: reset_pool_def Let_def split: prod.splits)

lemma MemoryPool_new_geometry:
  "block_size (MemoryPool_new 4096 4 4100) = 4096"
  "num_blocks (MemoryPool_new 4096 4 4100) = 4"
  "aligned_base (MemoryPool_new 4096 4 4100) = 4160"
  "allocated_count (MemoryPool_new 4096 4 4100) = 0"
  by (simp_all add: MemoryPool_new_def reset_pool_geometry align_up_def CACHE_LINE_SIZE_def
        sizeof_FreeNode_def)

lemma upt_0_4: "[0..<4] = [0, 1, 2, 3]"
  by (simp add: upt_rec)

lemma MemoryPool_new_allocate:
  "allocate (MemoryPool_new 4096 4 4100)
     = (16448, (MemoryPool_new 4096 4 4100)\<lparr>free_list := 12352, allocated_count := 1\<rparr>)"
  by (simp add: allocate_def MemoryPool_new_def reset_pool_def align_up_def
        CACHE_LINE_SIZE_def sizeof_FreeNode_def upt_0_4)

text \<open>
  C10. For a pointer that is null or outside the arena
  \<open>[aligned_base, aligned_base + block_size \<times> num_blocks)\<close>, \<open>deallocate\<close> leaves the
  pool as it is: the free list, the stored links and the allocated count are
  unchanged. A non-null pointer inside the arena becomes the head of the free list,
  with the old head stored as its link, and the allocated count goes down by 1.
\<close>

theorem deallocate_arena_check:
  "(ptr = 0 \<or> ptr < aligned_base pool
      \<or> aligned_base pool + block_size pool * num_blocks pool \<le> ptr
    \<longrightarrow> deallocate ptr pool = pool)
   \<and> (ptr \<noteq> 0 \<and> aligned_base pool \<le> ptr
        \<and> ptr < aligned_base pool + block_size pool * num_blocks pool
      \<longrightarrow> free_list (deallocate ptr pool) = ptr
          \<and> next_of (deallocate ptr pool) = (next_of pool)(ptr := free_list pool)
          \<and> allocated_count (deallocate ptr pool) = allocated_count pool - 1
          \<and> block_size (deallocate ptr pool) = block_size pool
          \<and> num_blocks (deallocate ptr pool) = num_blocks pool
          \<and> aligned_base (deallocate ptr pool) = aligned_base pool)"
  by (simp add: deallocate_def)

theorem deallocate_arena_check_witness:
  "100 < aligned_base (MemoryPool_new 4096 4 4100)
   \<and> deallocate 100 (MemoryPool_new 4096 4 4100) = MemoryPool_new 4096 4 4100
   \<and> aligned_base (MemoryPool_new 4096 4 4100) + block_size (MemoryPool_new 4096 4 4100)
         * num_blocks (MemoryPool_new 4096 4 4100) \<le> 20544
   \<and> deallocate 20544 (MemoryPool_new 4096 4 4100) = MemoryPool_new 4096 4 4100
   \<and> deallocate 0 (MemoryPool_new 4096 4 4100) = MemoryPool_new 4096 4 4100
   \<and> fst (allocate (MemoryPool_new 4096 4 4100)) = 16448
   \<and> free_list (snd (allocate (MemoryPool_new 4096 4 4100))) = 12352
   \<and> allocated_count (snd (allocate (MemoryPool_new 4096 4 4100))) = 1
   \<and> free_list (deallocate 16448 (snd (allocate (MemoryPool_new 4096 4 4100)))) = 16448
   \<and> next_of (deallocate 16448 (snd (allocate (MemoryPool_new 4096 4 4100)))) 16448 = 12352
   \<and> allocated_count (deallocate 16448 (snd (allocate (MemoryPool_new 4096 4 4100)))) = 0"
  using deallocate_arena_check [of 100 "MemoryPool_new 4096 4 4100"]
    deallocate_arena_check [of 20544 "MemoryPool_new 4096 4 4100"]
    deallocate_arena_check [of 0 "MemoryPool_new 4096 4 4100"]
    deallocate_arena_check [of 16448 "snd (allocate (MemoryPool_new 4096 4 4100))"]
  by (simp add: MemoryPool_new_geometry MemoryPool_new_allocate)

section \<open>Properties of the wire codec\<close>

lemma length_le_bytes [simp]: "length (le_bytes n w) = n"
  by (induction n arbitrary: w) simp_all

lemma le_word_le_bytes_take_bit:
  "(le_word (le_bytes n w) :: 'a::len word) = take_bit (8 * n) w"
proof (induction n arbitrary: w)
  case 0
  show ?case by simp
next
  case (Suc n)
  have "(ucast (ucast w :: u8) :: 'a word) OR push_bit 8 (take_bit (8 * n) (drop_bit 8 w))
          = take_bit (8 * Suc n) w"
    by (rule bit_word_eqI) (auto simp: bit_simps)
  with Suc show ?case by simp
qed

lemma le_word_le_bytes:
  "LENGTH('a::len) \<le> 8 * n \<Longrightarrow> (le_word (le_bytes n w) :: 'a word) = w"
  by (simp add: le_word_le_bytes_take_bit take_bit_word_eq_self)

lemma length_header_bytes [simp]: "length (header_bytes h) = 16"
  by (simp add: header_bytes_def)

lemma length_trade_payload_bytes [simp]: "length (trade_payload_bytes p) = 12"
  by (simp add: trade_payload_bytes_def)

lemma length_quote_payload_bytes [simp]: "length (quote_payload_bytes p) = 24"
  by (simp add: quote_payload_bytes_def)

lemma read_header_bytes [simp]: "read_header (header_bytes h @ rest) = h"
  by (simp add: read_header_def header_bytes_def le_word_le_bytes)

lemma read_trade_payload_bytes [simp]:
  "read_trade_payload (trade_payload_bytes p @ rest) = p"
  by (simp add: read_trade_payload_def trade_payload_bytes_def le_word_le_bytes)

lemma read_quote_payload_bytes [simp]:
  "read_quote_payload (quote_payload_bytes p @ rest) = p"
  by (simp add: read_quote_payload_def quote_payload_bytes_def le_word_le_bytes)

lemma length_encode_frame:
  "frame_kind_ok f \<Longrightarrow>
   length (encode_frame f) = get_message_size (message_type (frame_header f))"
  by (cases f)
     (simp_all add: encode_trade_def encode_quote_def encode_heartbeat_def Let_def
        get_message_size_def TRADE_def QUOTE_def HEARTBEAT_def TRADE_MSG_SIZE_def
        QUOTE_MSG_SIZE_def HEARTBEAT_MSG_SIZE_def HEADER_SIZE_def TRADE_PAYLOAD_SIZE_def
        QUOTE_PAYLOAD_SIZE_def CHECKSUM_SIZE_def)

lemma length_encode_frame_bounds:
  "frame_kind_ok f \<Longrightarrow> 20 \<le> length (encode_frame f) \<and> length (encode_frame f) \<le> 44"
  by (cases f) (simp_all add: encode_trade_def encode_quote_def encode_heartbeat_def Let_def)

lemma take_16_encode_frame: "take 16 (encode_frame f) = header_bytes (frame_header f)"
  by (cases f) (simp_all add: encode_trade_def encode_quote_def encode_heartbeat_def Let_def)

lemma validate_checksum_appended:
  "length body + 4 = n \<Longrightarrow>
   validate_checksum (body @ le_bytes 4 (calculate_checksum body)) n"
  by (auto simp: validate_checksum_def CHECKSUM_SIZE_def Let_def le_word_le_bytes)

lemma validate_checksum_encode_frame:
  "validate_checksum (encode_frame f) (length (encode_frame f))"
proof (cases f)
  case (Trade_frame h p)
  with validate_checksum_appended [of "header_bytes h @ trade_payload_bytes p" 32]
  show ?thesis by (simp add: encode_trade_def Let_def)
next
  case (Quote_frame h p)
  with validate_checksum_appended [of "header_bytes h @ quote_payload_bytes p" 44]
  show ?thesis by (simp add: encode_quote_def Let_def)
next
  case (Heartbeat_frame h)
  with validate_checksum_appended [of "header_bytes h" 20]
  show ?thesis by (simp add: encode_heartbeat_def Let_def)
qed

section \<open>Properties of the parser\<close>

lemma length_live [simp]: "length (live s) = write_pos s - read_pos s"
  by (simp add: live_def)

lemma peek_live:
  "off + n \<le> write_pos s - read_pos s \<Longrightarrow> peek s off n = take n (drop off (live s))"
proof (cases "n = 0")
  case True
  then show ?thesis by (simp add: peek_def)
next
  case False
  assume "off + n \<le> write_pos s - read_pos s"
  with False have "read_pos s + off + n \<le> write_pos s" by simp
  then have "take n [read_pos s + off ..< write_pos s]
               = [read_pos s + off ..< read_pos s + off + n]"
    by (rule take_upt)
  then show ?thesis by (simp add: peek_def live_def take_map drop_map)
qed

subsection \<open>One call of \<open>parse_one\<close>\<close>

lemma parse_one_accepts:
  assumes "accepts s"
  shows "parse_one s = (if gap_here s then SEQUENCE_GAP else SUCCESS, accepted_state s)"
  using assms
  unfolding accepts_def next_size_def next_header_def
  by (auto simp: parse_one_def Let_def check_sequence_def dispatch_def delivery_def
        gap_here_def accepted_state_def next_size_def next_header_def peek_def
        get_message_size_def TRADE_def QUOTE_def HEARTBEAT_def
      split: if_splits)

lemma parse_one_rejects:
  assumes "\<not> accepts s"
  shows "fst (parse_one s) \<in> {NEED_MORE_DATA, INVALID_MESSAGE, CHECKSUM_ERROR}
       \<and> expected_sequence (snd (parse_one s)) = expected_sequence s
       \<and> first_message (snd (parse_one s)) = first_message s
       \<and> events (snd (parse_one s)) = events s
       \<and> sequence_gaps (snd (parse_one s)) = sequence_gaps s"
  using assms
  unfolding accepts_def next_size_def next_header_def
  by (auto simp: parse_one_def Let_def split: if_splits)

lemma append_data_keeps:
  assumes "append_data d s = Inr (n, s')"
  shows "expected_sequence s' = expected_sequence s \<and> first_message s' = first_message s
       \<and> events s' = events s \<and> sequence_gaps s' = sequence_gaps s
       \<and> checksum_errors s' = checksum_errors s \<and> messages_parsed s' = messages_parsed s
       \<and> trade_cb s' = trade_cb s \<and> quote_cb s' = quote_cb s
       \<and> heartbeat_cb s' = heartbeat_cb s \<and> gap_cb s' = gap_cb s"
  using assms
  by (auto simp: append_data_def copy_to_buffer_def compact_buffer_def resize_buffer_def
        Let_def split: if_splits)

lemma delivery_single:
  assumes "accepts s" "callbacks_set s"
  shows "\<exists>e. delivery s = [e] \<and> (\<forall>a b. e \<noteq> Gap_event a b)"
  using assms
  by (auto simp: accepts_def next_size_def get_message_size_def delivery_def callbacks_set_def
        Let_def split: if_splits)

lemma run_calls_invariant:
  assumes "run_calls cs (s, la) = Inr (s', la')"
    and "la = None \<longleftrightarrow> first_message s"
    and "\<forall>q. la = Some q \<longrightarrow> expected_sequence s = q + 1"
  shows "(la' = None \<longleftrightarrow> first_message s')
       \<and> (\<forall>q. la' = Some q \<longrightarrow> expected_sequence s' = q + 1)"
  using assms
proof (induction cs arbitrary: s la)
  case Nil
  then show ?case by simp
next
  case (Cons c cs)
  show ?case
  proof (cases c)
    case (Append_data d)
    with Cons.prems(1) obtain n s1 where a: "append_data d s = Inr (n, s1)"
      and r: "run_calls cs (s1, la) = Inr (s', la')"
      by (auto split: sum.splits)
    from append_data_keeps [OF a] Cons.prems(2,3)
    have "la = None \<longleftrightarrow> first_message s1" "\<forall>q. la = Some q \<longrightarrow> expected_sequence s1 = q + 1"
      by simp_all
    from Cons.IH [OF r this] show ?thesis .
  next
    case Parse_one
    show ?thesis
    proof (cases "accepts s")
      case True
      with Parse_one Cons.prems(1)
      have r: "run_calls cs (accepted_state s, Some (sequence_number (next_header s)))
                 = Inr (s', la')"
        by (simp add: parse_one_accepts)
      show ?thesis
        by (rule Cons.IH [OF r]) (simp_all add: accepted_state_def)
    next
      case False
      with Parse_one Cons.prems(1)
      have r: "run_calls cs (snd (parse_one s), la) = Inr (s', la')" by simp
      from parse_one_rejects [OF False] Cons.prems(2,3)
      show ?thesis by (intro Cons.IH [OF r]) simp_all
    qed
  qed
qed

text \<open>
  C3. In every run of \<open>append_data\<close> and \<open>parse_one\<close> calls from a parser that has accepted
  no frame, the parser has accepted a frame exactly when \<open>first_message_\<close> is
  cleared, and from then on \<open>expected_sequence_\<close> is the sequence number of the last
  accepted frame plus 1 (32-bit addition). A call of \<open>parse_one\<close> that accepts a frame
  after the first one with a sequence number other than the expected one invokes the
  gap callback (when one is set) with the expected and the received number, adds 1 to
  the gap counter, sets the expected number to the received one plus 1, returns
  \<open>SEQUENCE_GAP\<close>, and still makes the invocation of the frame's kind and consumes the
  frame.
\<close>

theorem sequence_tracking:
  "(first_message s0 \<and> run_calls cs (s0, None) = Inr (s, la) \<longrightarrow>
      (la = None \<longleftrightarrow> first_message s)
      \<and> (\<forall>q. la = Some q \<longrightarrow> expected_sequence s = q + 1))
   \<and> (accepts s \<and> gap_here s \<longrightarrow>
        fst (parse_one s) = SEQUENCE_GAP
        \<and> events (snd (parse_one s))
            = events s
              @ (if gap_cb s
                 then [Gap_event (expected_sequence s) (sequence_number (next_header s))]
                 else [])
              @ delivery s
        \<and> sequence_gaps (snd (parse_one s)) = sequence_gaps s + 1
        \<and> expected_sequence (snd (parse_one s)) = sequence_number (next_header s) + 1
        \<and> messages_parsed (snd (parse_one s)) = messages_parsed s + 1
        \<and> read_pos (snd (parse_one s)) = read_pos s + next_size s
        \<and> (callbacks_set s \<longrightarrow> (\<exists>e. delivery s = [e] \<and> (\<forall>a b. e \<noteq> Gap_event a b))))
   \<and> (accepts s \<and> \<not> gap_here s \<longrightarrow>
        fst (parse_one s) = SUCCESS
        \<and> events (snd (parse_one s)) = events s @ delivery s
        \<and> sequence_gaps (snd (parse_one s)) = sequence_gaps s
        \<and> expected_sequence (snd (parse_one s)) = sequence_number (next_header s) + 1)"
proof -
  have A: "first_message s0 \<and> run_calls cs (s0, None) = Inr (s, la) \<longrightarrow>
      (la = None \<longleftrightarrow> first_message s)
      \<and> (\<forall>q. la = Some q \<longrightarrow> expected_sequence s = q + 1)"
    using run_calls_invariant [of cs s0 None s la] by simp
  have B: "accepts s \<and> gap_here s \<longrightarrow>
        fst (parse_one s) = SEQUENCE_GAP
        \<and> events (snd (parse_one s))
            = events s
              @ (if gap_cb s
                 then [Gap_event (expected_sequence s) (sequence_number (next_header s))]
                 else [])
              @ delivery s
        \<and> sequence_gaps (snd (parse_one s)) = sequence_gaps s + 1
        \<and> expected_sequence (snd (parse_one s)) = sequence_number (next_header s) + 1
        \<and> messages_parsed (snd (parse_one s)) = messages_parsed s + 1
        \<and> read_pos (snd (parse_one s)) = read_pos s + next_size s
        \<and> (callbacks_set s \<longrightarrow> (\<exists>e. delivery s = [e] \<and> (\<forall>a b. e \<noteq> Gap_event a b)))"
    by (simp add: parse_one_accepts accepted_state_def delivery_single)
  have C: "accepts s \<and> \<not> gap_here s \<longrightarrow>
        fst (parse_one s) = SUCCESS
        \<and> events (snd (parse_one s)) = events s @ delivery s
        \<and> sequence_gaps (snd (parse_one s)) = sequence_gaps s
        \<and> expected_sequence (snd (parse_one s)) = sequence_number (next_header s) + 1"
    by (simp add: parse_one_accepts accepted_state_def)
  show ?thesis by (rule conjI [OF A conjI [OF B C]])
qed

subsection \<open>The buffer\<close>

lemma live_copy_to_buffer:
  assumes "read_pos s \<le> write_pos s" "write_pos s + length d \<le> buffer_size s"
  shows "\<exists>s'. copy_to_buffer d s = Inr (length d, s') \<and> live s' = live s @ d
            \<and> read_pos s' = read_pos s \<and> write_pos s' = write_pos s + length d
            \<and> buffer_size s' = buffer_size s \<and> same_progress s s'"
proof -
  let ?w = "write_pos s"
  let ?f = "\<lambda>i. if ?w \<le> i \<and> i < ?w + length d then d ! (i - ?w) else buffer s i"
  have 1: "map ?f [read_pos s ..< ?w] = map (buffer s) [read_pos s ..< ?w]"
    by (rule map_cong) simp_all
  have "[?w ..< ?w + length d] = map (\<lambda>k. k + ?w) [0 ..< length d]"
    by (simp add: map_add_upt add.commute)
  then have "map ?f [?w ..< ?w + length d] = map (\<lambda>k. ?f (k + ?w)) [0 ..< length d]"
    by (simp only: map_map comp_def)
  also have "\<dots> = map ((!) d) [0 ..< length d]"
    by (rule map_cong) simp_all
  also have "\<dots> = d" by (rule map_nth)
  finally have 2: "map ?f [?w ..< ?w + length d] = d" .
  have "[read_pos s ..< ?w + length d] = [read_pos s ..< ?w] @ [?w ..< ?w + length d]"
    using assms(1) by (rule upt_add_eq_append)
  with 1 2 have "map ?f [read_pos s ..< ?w + length d] = live s @ d"
    by (simp add: live_def)
  with assms(2) show ?thesis
    by (simp add: copy_to_buffer_def Let_def live_def same_progress_def)
qed

lemma live_compact_buffer:
  assumes "read_pos s \<le> write_pos s"
  shows "live (compact_buffer s) = live s \<and> read_pos (compact_buffer s) = 0
       \<and> write_pos (compact_buffer s) = write_pos s - read_pos s
       \<and> buffer_size (compact_buffer s) = buffer_size s
       \<and> same_progress s (compact_buffer s)"
proof (cases "read_pos s = 0")
  case True
  then show ?thesis by (simp add: compact_buffer_def same_progress_def)
next
  case False
  let ?used = "write_pos s - read_pos s"
  have "map (\<lambda>i. if i < ?used then buffer s (read_pos s + i) else buffer s i) [0 ..< ?used]
          = map (buffer s) [read_pos s ..< write_pos s]"
    using assms by (intro nth_equalityI) simp_all
  with False show ?thesis
    by (simp add: compact_buffer_def Let_def live_def same_progress_def)
qed

lemma live_resize_buffer:
  assumes "write_pos s \<le> buffer_size s"
  shows "live (resize_buffer n s) = live s"
proof -
  have "map (\<lambda>i. if i < buffer_size s then buffer s i else 0) [read_pos s ..< write_pos s]
          = map (buffer s) [read_pos s ..< write_pos s]"
    using assms by (intro map_cong) simp_all
  then show ?thesis by (simp add: resize_buffer_def live_def)
qed

lemma buffer_sizes: "INITIAL_BUFFER_SIZE = 4194304" "MAX_BUFFER_SIZE = 16777216"
  by (simp_all add: INITIAL_BUFFER_SIZE_def MAX_BUFFER_SIZE_def)

lemma grow_room:
  fixes b u l :: nat
  assumes "b - u < l" "u + l \<le> min (b * 2) MAX_BUFFER_SIZE" "u \<le> b"
  shows "b < min (b * 2) MAX_BUFFER_SIZE"
  using assms by linarith

lemma append_data_room:
  assumes inv: "parser_inv s"
    and fits: "write_pos s - read_pos s + length d \<le> min (buffer_size s * 2) MAX_BUFFER_SIZE"
  shows "\<exists>s'. append_data d s = Inr (length d, s') \<and> live s' = live s @ d
            \<and> parser_inv s' \<and> same_progress s s'
            \<and> buffer_size s'
                = (if write_pos s - read_pos s + length d \<le> buffer_size s
                   then buffer_size s else min (buffer_size s * 2) MAX_BUFFER_SIZE)"
proof (cases "length d = 0")
  case True
  from inv have "write_pos s - read_pos s \<le> buffer_size s" by (auto simp: parser_inv_def)
  with True inv show ?thesis by (simp add: append_data_def same_progress_def)
next
  case nonempty: False
  from inv have rw: "read_pos s \<le> write_pos s" and wb: "write_pos s \<le> buffer_size s"
    and lo: "INITIAL_BUFFER_SIZE \<le> buffer_size s" and hi: "buffer_size s \<le> MAX_BUFFER_SIZE"
    by (simp_all add: parser_inv_def)
  show ?thesis
  proof (cases "buffer_size s - write_pos s < length d")
    case False
    then have le: "write_pos s + length d \<le> buffer_size s" using wb by simp
    then have small: "write_pos s - read_pos s + length d \<le> buffer_size s" by simp
    have ad: "append_data d s = copy_to_buffer d s"
      using False nonempty by (simp add: append_data_def Let_def)
    from live_copy_to_buffer [OF rw le] obtain s'
      where s': "copy_to_buffer d s = Inr (length d, s')" "live s' = live s @ d"
        "read_pos s' = read_pos s" "write_pos s' = write_pos s + length d"
        "buffer_size s' = buffer_size s" "same_progress s s'" by blast
    have "parser_inv s'"
      unfolding parser_inv_def s'(3,4,5) using rw le lo hi by simp
    with ad s'(1,2,5,6) small show ?thesis by simp
  next
    case True
    let ?c = "compact_buffer s"
    from live_compact_buffer [OF rw]
    have c: "live ?c = live s" "read_pos ?c = 0" "write_pos ?c = write_pos s - read_pos s"
      "buffer_size ?c = buffer_size s" "same_progress s ?c" by simp_all
    show ?thesis
    proof (cases "buffer_size ?c - write_pos ?c < length d")
      case False
      have ad: "append_data d s = copy_to_buffer d ?c"
        using True False nonempty by (simp add: append_data_def Let_def)
      have wc: "write_pos ?c \<le> buffer_size ?c" unfolding c using wb by simp
      with False have le: "write_pos ?c + length d \<le> buffer_size ?c" by simp
      then have small: "write_pos s - read_pos s + length d \<le> buffer_size s"
        unfolding c .
      have rc: "read_pos ?c \<le> write_pos ?c" unfolding c by simp
      from live_copy_to_buffer [OF rc le] obtain s'
        where s': "copy_to_buffer d ?c = Inr (length d, s')" "live s' = live ?c @ d"
          "read_pos s' = read_pos ?c" "write_pos s' = write_pos ?c + length d"
          "buffer_size s' = buffer_size ?c" "same_progress ?c s'" by blast
      have "parser_inv s'"
        unfolding parser_inv_def s'(3,4,5) using le lo hi c(2,4) by simp
      moreover from s'(6) c(5) have "same_progress s s'" by (simp add: same_progress_def)
      moreover have "live s' = live s @ d" using s'(2) c(1) by simp
      moreover have "buffer_size s' = buffer_size s" using s'(5) c(4) by simp
      ultimately show ?thesis using ad s'(1) small by simp
    next
      case grow: True
      let ?n = "min (buffer_size ?c * 2) MAX_BUFFER_SIZE"
      let ?g = "resize_buffer ?n ?c"
      have wc: "write_pos ?c \<le> buffer_size ?c" unfolding c using wb by simp
      have big2: "write_pos ?c + length d \<le> ?n" using fits unfolding c .
      have big1: "buffer_size ?c < ?n"
        using grow big2 wc by (rule grow_room)
      from grow wc have large: "\<not> write_pos s - read_pos s + length d \<le> buffer_size s"
        unfolding c by simp
      from big1 have ng: "\<not> ?n \<le> buffer_size ?c" by (simp only: not_le)
      have ad: "append_data d s = copy_to_buffer d ?g"
        using True grow nonempty ng by (simp only: append_data_def Let_def if_True if_False)
      have g: "live ?g = live ?c" "read_pos ?g = 0" "write_pos ?g = write_pos ?c"
        "buffer_size ?g = ?n" "same_progress ?c ?g"
        using c(2) live_resize_buffer [OF wc, of ?n]
        by (simp_all add: resize_buffer_def same_progress_def)
      have rg: "read_pos ?g \<le> write_pos ?g" unfolding g by simp
      have le: "write_pos ?g + length d \<le> buffer_size ?g" unfolding g using big2 .
      from live_copy_to_buffer [OF rg le] obtain s'
        where s': "copy_to_buffer d ?g = Inr (length d, s')" "live s' = live ?g @ d"
          "read_pos s' = read_pos ?g" "write_pos s' = write_pos ?g + length d"
          "buffer_size s' = buffer_size ?g" "same_progress ?g s'" by blast
      have "INITIAL_BUFFER_SIZE \<le> ?n" "?n \<le> MAX_BUFFER_SIZE"
        using big1 lo unfolding c by linarith+
      then have "parser_inv s'"
        unfolding parser_inv_def s'(3,4,5) g(2,3,4) using big2 by simp
      moreover from s'(6) g(5) c(5) have "same_progress s s'" by (simp add: same_progress_def)
      moreover have "live s' = live s @ d" using s'(2) g(1) c(1) by simp
      moreover have "buffer_size s' = min (buffer_size s * 2) MAX_BUFFER_SIZE"
        using s'(5) g(4) c(4) by simp
      ultimately show ?thesis using ad s'(1) large by simp
    qed
  qed
qed

lemma append_data_fits:
  assumes inv: "parser_inv s"
    and fits: "write_pos s - read_pos s + length d \<le> 2 * INITIAL_BUFFER_SIZE"
  shows "\<exists>s'. append_data d s = Inr (length d, s') \<and> live s' = live s @ d
            \<and> parser_inv s' \<and> same_progress s s'"
proof -
  from inv have "INITIAL_BUFFER_SIZE \<le> buffer_size s" by (simp add: parser_inv_def)
  with fits have "write_pos s - read_pos s + length d \<le> min (buffer_size s * 2) MAX_BUFFER_SIZE"
    unfolding buffer_sizes by linarith
  from append_data_room [OF inv this] show ?thesis by blast
qed


subsection \<open>Frames in the buffer\<close>

lemma read_header_bytes_only [simp]: "read_header (header_bytes h) = h"
  using read_header_bytes [of h "[]"] by simp

lemma read_trade_payload_bytes_only [simp]: "read_trade_payload (trade_payload_bytes p) = p"
  using read_trade_payload_bytes [of p "[]"] by simp

lemma read_quote_payload_bytes_only [simp]: "read_quote_payload (quote_payload_bytes p) = p"
  using read_quote_payload_bytes [of p "[]"] by simp

lemma live_advance:
  "live (s\<lparr>read_pos := read_pos s + k\<rparr>) = drop k (live s)"
  by (simp add: live_def drop_map)

lemma accepts_frame:
  assumes l: "live s = encode_frame f @ rest" and ok: "frame_kind_ok f"
  shows "accepts s" and "next_header s = frame_header f"
    and "next_size s = length (encode_frame f)"
    and "callbacks_set s \<Longrightarrow> delivery s = [frame_event f]"
proof -
  from length_encode_frame_bounds [OF ok]
  have b: "20 \<le> length (encode_frame f)" "length (encode_frame f) \<le> 44" by simp_all
  have len: "write_pos s - read_pos s = length (encode_frame f) + length rest"
    using arg_cong [OF l, of length] by simp
  have "peek s 0 HEADER_SIZE = take 16 (live s)"
    using len b by (simp add: peek_live HEADER_SIZE_def)
  also have "\<dots> = header_bytes (frame_header f)"
    using b by (simp add: l take_16_encode_frame)
  finally show h: "next_header s = frame_header f"
    by (simp add: next_header_def)
  then show n: "next_size s = length (encode_frame f)"
    by (simp add: next_size_def length_encode_frame [OF ok])
  have "peek s 0 (next_size s) = encode_frame f"
    using len by (simp add: n peek_live l)
  then have "validate_checksum (peek s 0 (next_size s)) (next_size s)"
    by (simp add: n validate_checksum_encode_frame)
  moreover have "encode_frame f \<noteq> []" using b by auto
  ultimately show "accepts s"
    using n b len by (simp add: accepts_def HEADER_SIZE_def QUOTE_MSG_SIZE_def
        QUOTE_PAYLOAD_SIZE_def CHECKSUM_SIZE_def)
  assume cb: "callbacks_set s"
  show "delivery s = [frame_event f]"
  proof (cases f)
    case (Trade_frame hd p)
    have "peek s HEADER_SIZE TRADE_PAYLOAD_SIZE = take 12 (drop 16 (live s))"
      using len b Trade_frame
      by (simp add: peek_live HEADER_SIZE_def TRADE_PAYLOAD_SIZE_def encode_trade_def Let_def)
    also have "\<dots> = trade_payload_bytes p"
      using Trade_frame by (simp add: l encode_trade_def Let_def)
    finally show ?thesis
      using Trade_frame ok cb h
      by (simp add: delivery_def callbacks_set_def Let_def)
  next
    case (Quote_frame hd p)
    have "peek s HEADER_SIZE QUOTE_PAYLOAD_SIZE = take 24 (drop 16 (live s))"
      using len b Quote_frame
      by (simp add: peek_live HEADER_SIZE_def QUOTE_PAYLOAD_SIZE_def encode_quote_def Let_def)
    also have "\<dots> = quote_payload_bytes p"
      using Quote_frame by (simp add: l encode_quote_def Let_def)
    finally show ?thesis
      using Quote_frame ok cb h
      by (simp add: delivery_def callbacks_set_def Let_def TRADE_def QUOTE_def)
  next
    case (Heartbeat_frame hd)
    then show ?thesis
      using ok cb h
      by (simp add: delivery_def callbacks_set_def Let_def TRADE_def QUOTE_def HEARTBEAT_def)
  qed
qed


lemma empty_needs_more:
  assumes "live s = []"
  shows "parse_one s = (NEED_MORE_DATA, s)"
proof -
  from assms have "length (live s) = 0" by simp
  then have "write_pos s - read_pos s = 0" by simp
  then show ?thesis by (simp add: parse_one_def HEADER_SIZE_def)
qed











subsection \<open>Round trip and fragmentation\<close>

lemma fresh_parser_facts:
  "parser_inv fresh_parser"
  "callbacks_set fresh_parser"
  "live fresh_parser = []"
  "first_message fresh_parser"
  "events fresh_parser = []"
  "buffer_size fresh_parser = INITIAL_BUFFER_SIZE"
  "malformed_messages fresh_parser = 0"
  "checksum_errors fresh_parser = 0"
  "sequence_gaps fresh_parser = 0"
  "messages_parsed fresh_parser = 0"
  "read_pos fresh_parser = 0"
  "write_pos fresh_parser = 0"
  by (simp_all add: fresh_parser_def set_callbacks_def MessageParser_new_def parser_inv_def callbacks_set_def
        live_def buffer_sizes)

text \<open>
  C1. For every frame of a kind with its header and payload (trade, quote or
  heartbeat: the header's type is the one of the kind), the bytes that the generator
  serialises (header, payload, checksum) decode to the same header, pass the
  checksum validation, and, appended to a parser with an empty buffer and parsed,
  yield one parsed message and exactly one invocation of the callback of the kind,
  with the same header and payload (after a gap report when the sequence number is
  not the expected one); the checksum-error and malformed counters are unchanged.
\<close>

theorem frame_round_trip:
  assumes ok: "frame_kind_ok f" and inv: "parser_inv s" and cb: "callbacks_set s"
    and empty: "read_pos s = write_pos s"
  shows "read_header (take HEADER_SIZE (encode_frame f)) = frame_header f
       \<and> validate_checksum (encode_frame f) (length (encode_frame f))
       \<and> (\<exists>s1 s2. append_data (encode_frame f) s = Inr (length (encode_frame f), s1)
             \<and> parse_messages s1 = (1, s2)
             \<and> events s2
                 = events s
                   @ (if \<not> first_message s
                         \<and> sequence_number (frame_header f) \<noteq> expected_sequence s
                      then [Gap_event (expected_sequence s) (sequence_number (frame_header f))]
                      else [])
                   @ [frame_event f]
             \<and> checksum_errors s2 = checksum_errors s
             \<and> malformed_messages s2 = malformed_messages s
             \<and> messages_parsed s2 = messages_parsed s + 1
             \<and> read_pos s2 = write_pos s2)"
proof -
  from length_encode_frame_bounds [OF ok]
  have b: "20 \<le> length (encode_frame f)" "length (encode_frame f) \<le> 44" by simp_all
  have hdr: "read_header (take HEADER_SIZE (encode_frame f)) = frame_header f"
    by (simp add: HEADER_SIZE_def take_16_encode_frame)
  from empty have l0: "live s = []" by (simp add: live_def)
  from empty b have "write_pos s - read_pos s + length (encode_frame f) \<le> 2 * INITIAL_BUFFER_SIZE"
    by (simp add: buffer_sizes)
  from append_data_fits [OF inv this] obtain s1
    where s1: "append_data (encode_frame f) s = Inr (length (encode_frame f), s1)"
      "live s1 = live s @ encode_frame f" "parser_inv s1" "same_progress s s1" by blast
  from s1(2) l0 have l1: "live s1 = encode_frame f @ []" by simp
  from cb s1(4) have cb1: "callbacks_set s1"
    by (simp add: callbacks_set_def same_progress_def)
  note a = accepts_frame [OF l1 ok]
  let ?s2 = "accepted_state s1"
  have p1: "parse_one s1 = (if gap_here s1 then SEQUENCE_GAP else SUCCESS, ?s2)"
    by (rule parse_one_accepts [OF a(1)])
  have "live ?s2 = drop (length (encode_frame f)) (live s1)"
    by (simp add: accepted_state_def a(3) live_def drop_map)
  then have l2: "live ?s2 = []" by (simp add: l1)
  then have p2: "parse_one ?s2 = (NEED_MORE_DATA, ?s2)" by (rule empty_needs_more)
  from p1 obtain r where r: "parse_one s1 = (r, ?s2)" "r = SUCCESS \<or> r = SEQUENCE_GAP"
    by (cases "gap_here s1") simp_all
  from r have "parse_loop 0 s1 = parse_loop 1 ?s2"
    using parse_loop.simps [of 0 s1] by auto
  moreover have "parse_loop 1 ?s2 = (1, ?s2)"
    using parse_loop.simps [of 1 ?s2] p2 by simp
  ultimately have pm: "parse_messages s1 = (1, ?s2)" by (simp add: parse_messages_def)
  have ev: "events ?s2
              = events s
                @ (if \<not> first_message s \<and> sequence_number (frame_header f) \<noteq> expected_sequence s
                   then [Gap_event (expected_sequence s) (sequence_number (frame_header f))]
                   else [])
                @ [frame_event f]"
    using s1(4) a(2) a(4) [OF cb1] cb1
    by (simp add: accepted_state_def gap_here_def same_progress_def callbacks_set_def)
  have cnt: "checksum_errors ?s2 = checksum_errors s"
    "malformed_messages ?s2 = malformed_messages s"
    "messages_parsed ?s2 = messages_parsed s + 1"
    using s1(4) by (simp_all add: accepted_state_def same_progress_def)
  from arg_cong [OF l1, of length]
  have "write_pos s1 - read_pos s1 = length (encode_frame f)" by simp
  moreover from s1(3) have "read_pos s1 \<le> write_pos s1" by (simp add: parser_inv_def)
  ultimately have "read_pos s1 + length (encode_frame f) = write_pos s1" by linarith
  then have rw2: "read_pos ?s2 = write_pos ?s2"
    by (simp add: accepted_state_def a(3))
  from s1(1) pm ev cnt rw2 have "\<exists>s1 s2. append_data (encode_frame f) s = Inr (length (encode_frame f), s1)
             \<and> parse_messages s1 = (1, s2)
             \<and> events s2
                 = events s
                   @ (if \<not> first_message s
                         \<and> sequence_number (frame_header f) \<noteq> expected_sequence s
                      then [Gap_event (expected_sequence s) (sequence_number (frame_header f))]
                      else [])
                   @ [frame_event f]
             \<and> checksum_errors s2 = checksum_errors s
             \<and> malformed_messages s2 = malformed_messages s
             \<and> messages_parsed s2 = messages_parsed s + 1
             \<and> read_pos s2 = write_pos s2" by blast
  with hdr validate_checksum_encode_frame [of f] show ?thesis by blast
qed

lemma hb_frame_ok [simp]: "frame_kind_ok (hb_frame i)"
  by (simp add: hb_frame_def)

lemma hb_frame_seq [simp]: "sequence_number (frame_header (hb_frame i)) = of_nat i"
  by (simp add: hb_frame_def)

lemma length_encode_hb [simp]: "length (encode_frame (hb_frame i)) = 20"
  by (simp add: hb_frame_def encode_heartbeat_def Let_def)


lemma hb_frames_Cons: "hb_frames a (Suc n) = hb_frame a # hb_frames (Suc a) n"
  by (simp add: hb_frames_def upt_rec)



lemma length_hb_frames [simp]: "length (hb_frames a n) = n"
  by (simp add: hb_frames_def)



lemma hd_hb_frames: "0 < n \<Longrightarrow> hd (hb_frames a n) = hb_frame a"
  by (cases n) (simp_all add: hb_frames_Cons)


lemma concat_bytewise [simp]: "concat (bytewise bs) = bs"
  by (induction bs) (simp_all add: bytewise_def)


lemma e3_frame_ok: "frame_kind_ok e3_frame"
  by (simp add: e3_frame_def e3_header_def)

theorem frame_round_trip_witness:
  "frame_kind_ok e3_frame \<and> parser_inv fresh_parser \<and> callbacks_set fresh_parser
   \<and> read_pos fresh_parser = write_pos fresh_parser
   \<and> read_header (take HEADER_SIZE (encode_frame e3_frame)) = e3_header
   \<and> fed_count (feed_chunks [encode_frame e3_frame] 0 fresh_parser) = Some 1
   \<and> fed_events (feed_chunks [encode_frame e3_frame] 0 fresh_parser)
       = Some [Quote_event e3_header e3_payload]
   \<and> fed_malformed (feed_chunks [encode_frame e3_frame] 0 fresh_parser) = Some 0"
proof -
  have h: "read_pos fresh_parser = write_pos fresh_parser"
    by (simp add: fresh_parser_facts)
  from frame_round_trip [OF e3_frame_ok fresh_parser_facts(1,2) h]
  obtain s1 s2 where
    "read_header (take HEADER_SIZE (encode_frame e3_frame)) = frame_header e3_frame"
    "append_data (encode_frame e3_frame) fresh_parser
       = Inr (length (encode_frame e3_frame), s1)"
    "parse_messages s1 = (1, s2)"
    "events s2 = events fresh_parser
       @ (if \<not> first_message fresh_parser
             \<and> sequence_number (frame_header e3_frame) \<noteq> expected_sequence fresh_parser
          then [Gap_event (expected_sequence fresh_parser)
                  (sequence_number (frame_header e3_frame))]
          else [])
       @ [frame_event e3_frame]"
    "malformed_messages s2 = malformed_messages fresh_parser"
    by blast
  then show ?thesis
    using e3_frame_ok h
    by (simp add: fresh_parser_facts fed_count_def fed_events_def fed_malformed_def e3_frame_def)
qed









subsection \<open>A run with a gap\<close>

lemma append_frame_empty:
  assumes inv: "parser_inv s" and empty: "read_pos s = write_pos s" and ok: "frame_kind_ok f"
  shows "\<exists>s1. append_data (encode_frame f) s = Inr (length (encode_frame f), s1)
            \<and> the (fed_state (append_data (encode_frame f) s)) = s1
            \<and> live s1 = encode_frame f @ [] \<and> parser_inv s1 \<and> same_progress s s1"
proof -
  from length_encode_frame_bounds [OF ok] empty
  have "write_pos s - read_pos s + length (encode_frame f) \<le> 2 * INITIAL_BUFFER_SIZE"
    by (simp add: buffer_sizes)
  from append_data_fits [OF inv this] obtain s1
    where "append_data (encode_frame f) s = Inr (length (encode_frame f), s1)"
      "live s1 = live s @ encode_frame f" "parser_inv s1" "same_progress s s1" by blast
  moreover from empty have "live s = []" by (simp add: live_def)
  ultimately show ?thesis by (simp add: fed_state_def)
qed

lemma after_hb7_facts:
  "append_data (encode_frame (hb_frame 7)) fresh_parser = Inr (20, after_hb7)"
  "live after_hb7 = encode_frame (hb_frame 7) @ []"
  "parser_inv after_hb7" "same_progress fresh_parser after_hb7"
proof -
  have e: "read_pos fresh_parser = write_pos fresh_parser" by (simp add: fresh_parser_facts)
  from append_frame_empty [OF fresh_parser_facts(1) e hb_frame_ok [of 7]]
  show "append_data (encode_frame (hb_frame 7)) fresh_parser = Inr (20, after_hb7)"
    "live after_hb7 = encode_frame (hb_frame 7) @ []"
    "parser_inv after_hb7" "same_progress fresh_parser after_hb7"
    by (auto simp: after_hb7_def)
qed

lemma after_hb7_accepts:
  "accepts after_hb7" "\<not> gap_here after_hb7"
  "next_header after_hb7 = frame_header (hb_frame 7)"
  "delivery after_hb7 = [frame_event (hb_frame 7)]"
  "next_size after_hb7 = 20"
proof -
  note a = accepts_frame [OF after_hb7_facts(2) hb_frame_ok]
  from after_hb7_facts(4) have cb: "callbacks_set after_hb7"
    and fm: "first_message after_hb7"
    by (simp_all add: same_progress_def callbacks_set_def fresh_parser_facts
          fresh_parser_facts(2) [unfolded callbacks_set_def])
  show "accepts after_hb7" by (rule a(1))
  show "\<not> gap_here after_hb7" using fm by (simp add: gap_here_def)
  show "next_header after_hb7 = frame_header (hb_frame 7)" by (rule a(2))
  show "delivery after_hb7 = [frame_event (hb_frame 7)]" by (rule a(4) [OF cb])
  show "next_size after_hb7 = 20" using a(3) by simp
qed

lemma after_hb7_parsed_eq: "after_hb7_parsed = accepted_state after_hb7"
  by (simp add: after_hb7_parsed_def parse_one_accepts after_hb7_accepts)

lemma after_hb7_parsed_facts:
  "parser_inv after_hb7_parsed" "read_pos after_hb7_parsed = write_pos after_hb7_parsed"
  "callbacks_set after_hb7_parsed" "\<not> first_message after_hb7_parsed"
  "expected_sequence after_hb7_parsed = 8"
  "events after_hb7_parsed = [frame_event (hb_frame 7)]"
  "sequence_gaps after_hb7_parsed = 0"
proof -
  from arg_cong [OF after_hb7_facts(2), of length]
  have "write_pos after_hb7 - read_pos after_hb7 = 20" by simp
  moreover from after_hb7_facts(3) have i: "read_pos after_hb7 \<le> write_pos after_hb7"
    "write_pos after_hb7 \<le> buffer_size after_hb7"
    "INITIAL_BUFFER_SIZE \<le> buffer_size after_hb7" "buffer_size after_hb7 \<le> MAX_BUFFER_SIZE"
    by (simp_all add: parser_inv_def)
  ultimately have rw: "read_pos after_hb7 + 20 = write_pos after_hb7" by linarith
  with i show "parser_inv after_hb7_parsed"
    "read_pos after_hb7_parsed = write_pos after_hb7_parsed"
    by (simp_all add: after_hb7_parsed_eq accepted_state_def after_hb7_accepts parser_inv_def)
  from after_hb7_facts(4) show "callbacks_set after_hb7_parsed"
    "\<not> first_message after_hb7_parsed" "expected_sequence after_hb7_parsed = 8"
    "events after_hb7_parsed = [frame_event (hb_frame 7)]"
    "sequence_gaps after_hb7_parsed = 0"
    using fresh_parser_facts(2)
    by (simp_all add: after_hb7_parsed_eq accepted_state_def after_hb7_accepts
          same_progress_def callbacks_set_def fresh_parser_facts)
qed

lemma gap_state_facts:
  "accepts gap_state" "gap_here gap_state" "gap_cb gap_state"
  "next_header gap_state = frame_header (hb_frame 9)"
  "delivery gap_state = [frame_event (hb_frame 9)]"
  "expected_sequence gap_state = 8"
  "events gap_state = [frame_event (hb_frame 7)]"
  "sequence_gaps gap_state = 0"
proof -
  from append_frame_empty [OF after_hb7_parsed_facts(1,2) hb_frame_ok [of 9]]
  have l: "live gap_state = encode_frame (hb_frame 9) @ []"
    and sp: "same_progress after_hb7_parsed gap_state"
    by (auto simp: gap_state_def)
  note a = accepts_frame [OF l hb_frame_ok]
  from sp after_hb7_parsed_facts(3) have cb: "callbacks_set gap_state"
    by (simp add: same_progress_def callbacks_set_def)
  show "accepts gap_state" by (rule a(1))
  show "next_header gap_state = frame_header (hb_frame 9)" by (rule a(2))
  show "delivery gap_state = [frame_event (hb_frame 9)]" by (rule a(4) [OF cb])
  from cb show "gap_cb gap_state" by (simp add: callbacks_set_def)
  from sp after_hb7_parsed_facts show "expected_sequence gap_state = 8"
    "events gap_state = [frame_event (hb_frame 7)]" "sequence_gaps gap_state = 0"
    by (simp_all add: same_progress_def)
  from sp after_hb7_parsed_facts a(2) show "gap_here gap_state"
    by (simp add: gap_here_def same_progress_def)
qed

theorem sequence_tracking_witness:
  "first_message fresh_parser
   \<and> run_calls [Append_data (encode_frame (hb_frame 7)), Parse_one] (fresh_parser, None)
       = Inr (after_hb7_parsed, Some 7)
   \<and> expected_sequence after_hb7_parsed = 7 + 1
   \<and> accepts after_hb7 \<and> \<not> gap_here after_hb7
   \<and> fst (parse_one after_hb7) = SUCCESS
   \<and> accepts gap_state \<and> gap_here gap_state
   \<and> fst (parse_one gap_state) = SEQUENCE_GAP
   \<and> events (snd (parse_one gap_state))
       = [frame_event (hb_frame 7), Gap_event 8 9, frame_event (hb_frame 9)]
   \<and> sequence_gaps (snd (parse_one gap_state)) = 1
   \<and> expected_sequence (snd (parse_one gap_state)) = 10"
proof -
  have run: "run_calls [Append_data (encode_frame (hb_frame 7)), Parse_one]
               (fresh_parser, None) = Inr (after_hb7_parsed, Some 7)"
    by (simp add: after_hb7_facts(1) after_hb7_parsed_def after_hb7_accepts)
  note t1 = sequence_tracking [of fresh_parser
      "[Append_data (encode_frame (hb_frame 7)), Parse_one]" after_hb7_parsed "Some 7"]
  note t2 = sequence_tracking [of fresh_parser "[]" after_hb7 None]
  note t3 = sequence_tracking [of fresh_parser "[]" gap_state None]
  from t1 run have "expected_sequence after_hb7_parsed = 7 + 1"
    by (simp add: fresh_parser_facts)
  moreover from t2 after_hb7_accepts(1,2) have "fst (parse_one after_hb7) = SUCCESS"
    by blast
  moreover from t3 gap_state_facts(1,2)
  have "fst (parse_one gap_state) = SEQUENCE_GAP"
    "events (snd (parse_one gap_state))
       = events gap_state
         @ (if gap_cb gap_state
            then [Gap_event (expected_sequence gap_state)
                    (sequence_number (next_header gap_state))]
            else [])
         @ delivery gap_state"
    "sequence_gaps (snd (parse_one gap_state)) = sequence_gaps gap_state + 1"
    "expected_sequence (snd (parse_one gap_state)) = sequence_number (next_header gap_state) + 1"
    by blast+
  ultimately show ?thesis
    using run after_hb7_accepts(1,2) gap_state_facts
    by (simp add: fresh_parser_facts)
qed

section \<open>Properties of the client manager\<close>

lemma find_client_update_client:
  "find_client (update_client fd' f m) fd_v
     = (if fd_v = fd' then map_option f (find_client m fd_v) else find_client m fd_v)"
proof -
  have "map_of (map (\<lambda>(k, c). if k = fd' then (k, f c) else (k, c)) xs) fd_v
          = (if fd_v = fd' then map_option f (map_of xs fd_v) else map_of xs fd_v)" for xs
    by (induction xs) auto
  then show ?thesis by (simp add: find_client_def update_client_def)
qed

lemma slow_threshold_update_client [simp]:
  "slow_threshold (update_client fd' f m) = slow_threshold m"
  by (simp add: update_client_def)

lemma keys_update_client [simp]:
  "map fst (clients (update_client fd' f m)) = map fst (clients m)"
  by (simp add: update_client_def comp_def case_prod_unfold)

lemma find_client_mark_slow:
  "find_client (mark_slow_consumer fd' m) fd_v
     = (if fd_v = fd'
        then map_option (\<lambda>c. c\<lparr>is_slow := True, slow_consumer_count := slow_consumer_count c + 1\<rparr>)
               (find_client m fd_v)
        else find_client m fd_v)"
  by (auto simp: mark_slow_consumer_def find_client_update_client split: option.splits)

lemma find_client_clear_slow:
  "find_client (clear_slow_status fd' m) fd_v
     = (if fd_v = fd' then map_option (\<lambda>c. c\<lparr>is_slow := False\<rparr>) (find_client m fd_v)
        else find_client m fd_v)"
  by (auto simp: clear_slow_status_def find_client_update_client split: option.splits)

lemma slow_threshold_mark_slow [simp]:
  "slow_threshold (mark_slow_consumer fd' m) = slow_threshold m"
  by (simp add: mark_slow_consumer_def split: option.splits)

lemma slow_threshold_clear_slow [simp]:
  "slow_threshold (clear_slow_status fd' m) = slow_threshold m"
  by (simp add: clear_slow_status_def split: option.splits)

lemma send_to_client_flag:
  assumes "find_client m fd_v = Some c"
  shows "\<exists>c'. find_client (fst (snd (send_to_client k fd_v len m))) fd_v = Some c'
          \<and> is_slow c'
              = (if outq_before (k fd_v) > slow_threshold m then True
                 else (case send_outcome (k fd_v) of
                         Would_block \<Rightarrow> True
                       | Send_error \<Rightarrow> is_slow c
                       | Sent n \<Rightarrow>
                           if n < len then True
                           else if is_slow c \<and> outq_before (k fd_v) < slow_threshold m div 2
                           then False else is_slow c))"
  using assms
  by (auto simp: send_to_client_def Let_def find_client_update_client find_client_mark_slow
        find_client_clear_slow split: send_result.splits)

lemma send_to_client_other:
  assumes "fd_v \<noteq> fd'"
  shows "find_client (fst (snd (send_to_client k fd' len m))) fd_v = find_client m fd_v"
    and "fd_v \<notin> fst ` set (snd (snd (send_to_client k fd' len m)))"
  using assms
  by (auto simp: send_to_client_def Let_def find_client_update_client find_client_mark_slow
        find_client_clear_slow split: send_result.splits option.splits)

lemma send_to_client_threshold [simp]:
  "slow_threshold (fst (snd (send_to_client k fd' len m))) = slow_threshold m"
  by (auto simp: send_to_client_def Let_def split: send_result.splits option.splits)

lemma send_to_client_calls:
  assumes "find_client m fd_v = Some c" "outq_before (k fd_v) \<le> slow_threshold m"
  shows "snd (snd (send_to_client k fd_v len m)) = [(fd_v, send_outcome (k fd_v))]"
  using assms
  by (auto simp: send_to_client_def Let_def split: send_result.splits)

lemma send_to_client_exists:
  assumes "find_client m fd_v = Some c"
  shows "\<exists>c'. find_client (fst (snd (send_to_client k fd' len m))) fd_v = Some c'"
proof (cases "fd_v = fd'")
  case True
  with send_to_client_flag [OF assms, of k len] show ?thesis by auto
next
  case False
  with send_to_client_other(1) [OF False, of k len m] assms show ?thesis by simp
qed

lemma broadcast_loop_skips_slow:
  assumes "find_client m fd_v = Some c" "is_slow c" "fd_v \<notin> fst ` set sends"
  shows "find_client (fst (snd (broadcast_loop k now len sym_id fds (n, m, sends)))) fd_v = Some c
       \<and> fd_v \<notin> fst ` set (snd (snd (broadcast_loop k now len sym_id fds (n, m, sends))))"
  using assms
proof (induction fds arbitrary: n m sends)
  case Nil
  then show ?case by simp
next
  case (Cons fd' fds)
  show ?case
  proof (cases "fd' = fd_v")
    case True
    with Cons.prems Cons.IH [OF Cons.prems] show ?thesis by simp
  next
    case False
    then have ne: "fd_v \<noteq> fd'" by simp
    show ?thesis
    proof (cases "find_client m fd'")
      case None
      with Cons.IH [OF Cons.prems] show ?thesis by simp
    next
      case (Some client)
      show ?thesis
      proof (cases "is_slow client \<or> (\<not> subscribe_all client \<and> sym_id \<notin> subscribed_symbols client)")
        case True
        with Some Cons.IH [OF Cons.prems] show ?thesis by auto
      next
        case False
        obtain ok m1 calls where s: "send_to_client k fd' len m = (ok, m1, calls)"
          by (cases "send_to_client k fd' len m") auto
        from send_to_client_other [OF ne, of k len m] s Cons.prems
        have m1: "find_client m1 fd_v = Some c" and calls: "fd_v \<notin> fst ` set (sends @ calls)"
          by auto
        let ?m2 = "update_client fd'
                     (\<lambda>c. c\<lparr>messages_sent := messages_sent c + 1,
                             bytes_sent := bytes_sent c + of_nat len,
                             last_activity := now\<rparr>) m1"
        from m1 ne have m2: "find_client ?m2 fd_v = Some c"
          by (simp add: find_client_update_client)
        show ?thesis
        proof (cases ok)
          case True
          with Some False s Cons.IH [OF m2 Cons.prems(2) calls, of "n + 1"]
          show ?thesis by auto
        next
          case no: False
          with Some False s Cons.IH [OF m1 Cons.prems(2) calls, of n]
          show ?thesis by auto
        qed
      qed
    qed
  qed
qed

lemma heartbeat_loop_keeps:
  "set sends \<subseteq> set (snd (heartbeat_loop k len fds (m, sends)))"
proof (induction fds arbitrary: m sends)
  case Nil
  show ?case by simp
next
  case (Cons fd' fds)
  obtain ok m1 calls where s: "send_to_client k fd' len m = (ok, m1, calls)"
    by (cases "send_to_client k fd' len m") auto
  from Cons.IH [of "sends @ calls" m1] s show ?case by auto
qed

lemma heartbeat_loop_reaches:
  assumes "fd_v \<in> set fds" "find_client m fd_v = Some c"
    "outq_before (k fd_v) \<le> slow_threshold m"
  shows "(fd_v, send_outcome (k fd_v)) \<in> set (snd (heartbeat_loop k len fds (m, sends)))"
  using assms
proof (induction fds arbitrary: m sends c)
  case Nil
  then show ?case by simp
next
  case (Cons fd' fds)
  obtain ok m1 calls where s: "send_to_client k fd' len m = (ok, m1, calls)"
    by (cases "send_to_client k fd' len m") auto
  show ?case
  proof (cases "fd' = fd_v")
    case True
    from send_to_client_calls [of m fd_v c k len, OF Cons.prems(2,3)] s True
    have "(fd_v, send_outcome (k fd_v)) \<in> set (sends @ calls)" by simp
    with heartbeat_loop_keeps [of "sends @ calls" k len fds m1] s show ?thesis by auto
  next
    case False
    then have ne: "fd_v \<noteq> fd'" by simp
    with Cons.prems(1) have in_fds: "fd_v \<in> set fds" by simp
    from send_to_client_other(1) [OF ne, of k len m] s Cons.prems(2)
    have f1: "find_client m1 fd_v = Some c" by simp
    from send_to_client_threshold [of k fd' len m] s Cons.prems(3)
    have t1: "outq_before (k fd_v) \<le> slow_threshold m1" by simp
    from Cons.IH [OF in_fds f1 t1, of "sends @ calls"] s show ?thesis by simp
  qed
qed

lemma find_client_in_fds: "find_client m fd_v = Some c \<Longrightarrow> fd_v \<in> set (get_all_client_fds m)"
  by (auto simp: find_client_def get_all_client_fds_def dest: map_of_SomeD intro: rev_image_eqI)

lemma broadcast_skips_slow:
  assumes "find_client m fd_v = Some c" "is_slow c"
  shows "find_client (fst (snd (broadcast k now len sym_id m))) fd_v = Some c"
    and "fd_v \<notin> fst ` set (snd (snd (broadcast k now len sym_id m)))"
proof -
  obtain n m1 sends
    where b: "broadcast_loop k now len sym_id (map fst (clients m)) (0, m, []) = (n, m1, sends)"
    by (cases "broadcast_loop k now len sym_id (map fst (clients m)) (0, m, [])") auto
  from broadcast_loop_skips_slow [OF assms, of "[]" k now len sym_id "map fst (clients m)" 0] b
  have "find_client m1 fd_v = Some c" "fd_v \<notin> fst ` set sends" by simp_all
  then show "find_client (fst (snd (broadcast k now len sym_id m))) fd_v = Some c"
    and "fd_v \<notin> fst ` set (snd (snd (broadcast k now len sym_id m)))"
    by (simp_all add: broadcast_def b find_client_def)
qed

lemma slow_manager_facts:
  "find_client slow_manager 5
     = Some \<lparr>fd = 5, address = ''10.0.0.1'', port = 4000, subscribed_symbols = {},
             subscribe_all = True, pending_bytes = 0, slow_consumer_count = 1, is_slow = True,
             messages_sent = 0, bytes_sent = 0, connect_time = 0, last_activity = 0\<rparr>"
  "slow_threshold slow_manager = 1048576"
  "get_all_client_fds slow_manager = [5]"
  by (simp_all add: slow_manager_def send_to_client_def add_client_def ClientManager_new_def
        find_client_def update_client_def mark_slow_consumer_def blocked_kernel_def
        SLOW_CONSUMER_THRESHOLD_def get_all_client_fds_def Let_def)

lemma slow_manager_is_slow: "is_slow (the (find_client slow_manager 5))"
  by (simp add: slow_manager_facts)

text \<open>
  C8, as stated, fails for heartbeats: \<open>send_heartbeat\<close> calls \<open>send_to_client\<close> for every
  descriptor without looking at \<open>is_slow\<close>. The slow subscriber 5, its queue drained, is
  handed the heartbeat (and the flag is cleared by that send).
\<close>

theorem heartbeat_to_slow_counterexample:
  "is_slow (the (find_client slow_manager 5))
   \<and> snd (send_heartbeat drained_kernel slow_manager) = [(5, Sent 20)]
   \<and> \<not> is_slow (the (find_client (fst (send_heartbeat drained_kernel slow_manager)) 5))"
proof -
  have s: "send_to_client drained_kernel 5 HEARTBEAT_MSG_SIZE slow_manager
             = (True, clear_slow_status 5
                        (update_client 5 (\<lambda>c. c\<lparr>pending_bytes := 0\<rparr>) slow_manager),
                [(5, Sent 20)])"
    by (simp add: send_to_client_def slow_manager_facts drained_kernel_def Let_def
          HEARTBEAT_MSG_SIZE_def HEADER_SIZE_def CHECKSUM_SIZE_def)
  have "send_heartbeat drained_kernel slow_manager
          = (clear_slow_status 5
               (update_client 5 (\<lambda>c. c\<lparr>pending_bytes := 0\<rparr>) slow_manager),
             [(5, Sent 20)])"
    by (simp add: send_heartbeat_def slow_manager_facts s)
  then show ?thesis
    by (simp add: slow_manager_facts find_client_clear_slow find_client_update_client)
qed

text \<open>
  C8, amended. While a subscriber's \<open>is_slow\<close> flag is set, \<open>broadcast\<close> skips it: no
  \<open>::send\<close> is made for its descriptor and its entry (counters, flag, time stamps) is
  unchanged, so it misses every tick broadcast while it is slow, and nothing is kept
  for it to be sent later. Heartbeats are not skipped: \<open>send_heartbeat\<close> makes the send
  for every subscriber, slow or not, whose queue reading is at most the threshold.
\<close>

theorem slow_subscriber_skipped:
  assumes "find_client m fd_v = Some c" and "is_slow c"
  shows "fd_v \<notin> fst ` set (snd (snd (broadcast k now len sym_id m)))
       \<and> find_client (fst (snd (broadcast k now len sym_id m))) fd_v = Some c
       \<and> (outq_before (k fd_v) \<le> slow_threshold m \<longrightarrow>
            (fd_v, send_outcome (k fd_v)) \<in> set (snd (send_heartbeat k m)))"
proof -
  have "outq_before (k fd_v) \<le> slow_threshold m \<longrightarrow>
          (fd_v, send_outcome (k fd_v)) \<in> set (snd (send_heartbeat k m))"
    using heartbeat_loop_reaches [OF find_client_in_fds [OF assms(1)] assms(1),
        of k HEARTBEAT_MSG_SIZE "[]"]
    by (simp add: send_heartbeat_def)
  with broadcast_skips_slow [OF assms, of k now len sym_id] show ?thesis by simp
qed

theorem slow_subscriber_skipped_witness:
  "find_client slow_manager 5 \<noteq> None \<and> is_slow (the (find_client slow_manager 5))
   \<and> 5 \<notin> fst ` set (snd (snd (broadcast drained_kernel 1 44 0 slow_manager)))
   \<and> find_client (fst (snd (broadcast drained_kernel 1 44 0 slow_manager))) 5
       = find_client slow_manager 5
   \<and> outq_before (drained_kernel 5) \<le> slow_threshold slow_manager
   \<and> (5, Sent 20) \<in> set (snd (send_heartbeat drained_kernel slow_manager))"
proof -
  have q: "outq_before (drained_kernel 5) \<le> slow_threshold slow_manager"
    "send_outcome (drained_kernel 5) = Sent 20"
    by (simp_all add: drained_kernel_def slow_manager_facts)
  from slow_subscriber_skipped [OF slow_manager_facts(1), of drained_kernel 1 44 0] q
  show ?thesis by (simp add: slow_manager_facts)
qed

text \<open>
  C7, as stated, fails: the queue depth that decides the clearing is read before the
  send, not after. For the slow subscriber 5 the reading is 524287, below half the
  threshold (524288); the 20 bytes are accepted whole and the flag is cleared, although
  the queue holds 524307 bytes once the send has returned.
\<close>

theorem clear_before_send_counterexample:
  "is_slow (the (find_client slow_manager 5))
   \<and> send_outcome (filling_kernel 5) = Sent 20
   \<and> slow_threshold slow_manager div 2 = 524288
   \<and> outq_after (filling_kernel 5) = 524307
   \<and> \<not> outq_after (filling_kernel 5) < slow_threshold slow_manager div 2
   \<and> fst (send_to_client filling_kernel 5 20 slow_manager)
   \<and> \<not> is_slow (the (find_client (fst (snd (send_to_client filling_kernel 5 20 slow_manager))) 5))"
proof -
  have "send_to_client filling_kernel 5 20 slow_manager
          = (True, clear_slow_status 5
                     (update_client 5 (\<lambda>c. c\<lparr>pending_bytes := 524287\<rparr>) slow_manager),
             [(5, Sent 20)])"
    by (simp add: send_to_client_def slow_manager_facts filling_kernel_def Let_def)
  then show ?thesis
    by (simp add: slow_manager_facts find_client_clear_slow find_client_update_client
          filling_kernel_def)
qed

text \<open>
  C7, amended. After \<open>send_to_client\<close> for a known subscriber the flag \<open>is_slow\<close> is set
  whenever the queue reading exceeds the threshold (1 MiB in a new manager), the send
  would block, or the send is partial, and a flag that was clear is set only then. A
  flag that was set is cleared exactly when the send is accepted whole and the queue
  reading taken before the send is below half the threshold. \<open>broadcast\<close> leaves a
  set flag as it is.
\<close>

theorem slow_flag_sticky:
  assumes "find_client m fd_v = Some c"
  shows "\<exists>c'. find_client (fst (snd (send_to_client k fd_v len m))) fd_v = Some c'
          \<and> (slow_threshold m < outq_before (k fd_v)
               \<or> send_outcome (k fd_v) = Would_block
               \<or> (\<exists>n < len. send_outcome (k fd_v) = Sent n)
              \<longrightarrow> is_slow c')
          \<and> (is_slow c \<and> \<not> is_slow c'
              \<longrightarrow> (\<exists>n \<ge> len. send_outcome (k fd_v) = Sent n)
                  \<and> outq_before (k fd_v) < slow_threshold m div 2)
          \<and> (is_slow c \<and> (\<exists>n \<ge> len. send_outcome (k fd_v) = Sent n)
                \<and> outq_before (k fd_v) < slow_threshold m div 2
              \<longrightarrow> \<not> is_slow c')
          \<and> (\<not> is_slow c \<and> is_slow c'
              \<longrightarrow> slow_threshold m < outq_before (k fd_v)
                  \<or> send_outcome (k fd_v) = Would_block
                  \<or> (\<exists>n < len. send_outcome (k fd_v) = Sent n))
          \<and> (is_slow c \<longrightarrow>
                find_client (fst (snd (broadcast k now len sym_id m))) fd_v = Some c)
          \<and> slow_threshold ClientManager_new = 1024 * 1024"
proof -
  from send_to_client_flag [OF assms, of k len] obtain c'
    where c': "find_client (fst (snd (send_to_client k fd_v len m))) fd_v = Some c'"
      "is_slow c'
         = (if outq_before (k fd_v) > slow_threshold m then True
            else (case send_outcome (k fd_v) of
                    Would_block \<Rightarrow> True
                  | Send_error \<Rightarrow> is_slow c
                  | Sent n \<Rightarrow>
                      if n < len then True
                      else if is_slow c \<and> outq_before (k fd_v) < slow_threshold m div 2
                      then False else is_slow c))"
    by blast
  have 1: "slow_threshold m < outq_before (k fd_v)
             \<or> send_outcome (k fd_v) = Would_block
             \<or> (\<exists>n < len. send_outcome (k fd_v) = Sent n)
           \<longrightarrow> is_slow c'"
    using c'(2) by (auto split: send_result.splits)
  have 2: "is_slow c \<and> \<not> is_slow c'
           \<longrightarrow> (\<exists>n \<ge> len. send_outcome (k fd_v) = Sent n)
               \<and> outq_before (k fd_v) < slow_threshold m div 2"
    using c'(2) by (auto split: send_result.splits if_splits)
  have 3: "is_slow c \<and> (\<exists>n \<ge> len. send_outcome (k fd_v) = Sent n)
             \<and> outq_before (k fd_v) < slow_threshold m div 2
           \<longrightarrow> \<not> is_slow c'"
    using c'(2) by (auto split: send_result.splits if_splits)
  have 4: "\<not> is_slow c \<and> is_slow c'
           \<longrightarrow> slow_threshold m < outq_before (k fd_v)
               \<or> send_outcome (k fd_v) = Would_block
               \<or> (\<exists>n < len. send_outcome (k fd_v) = Sent n)"
    using c'(2) by (auto split: send_result.splits if_splits)
  have 5: "is_slow c \<longrightarrow>
             find_client (fst (snd (broadcast k now len sym_id m))) fd_v = Some c"
    using broadcast_skips_slow(1) [OF assms, of k now len sym_id] by simp
  have 6: "slow_threshold ClientManager_new = 1024 * 1024"
    by (simp add: ClientManager_new_def SLOW_CONSUMER_THRESHOLD_def)
  from c'(1) 1 2 3 4 5 6 show ?thesis by blast
qed

theorem slow_flag_sticky_witness:
  "find_client slow_manager 5 \<noteq> None
   \<and> is_slow (the (find_client slow_manager 5))
   \<and> send_outcome (filling_kernel 5) = Sent 20
   \<and> outq_before (filling_kernel 5) < slow_threshold slow_manager div 2
   \<and> \<not> is_slow (the (find_client (fst (snd (send_to_client filling_kernel 5 20 slow_manager))) 5))
   \<and> send_outcome (blocked_kernel 5) = Would_block
   \<and> is_slow (the (find_client (fst (snd (send_to_client blocked_kernel 5 20 slow_manager))) 5))"
proof -
  have f: "send_outcome (filling_kernel 5) = Sent 20"
    "outq_before (filling_kernel 5) < slow_threshold slow_manager div 2"
    by (simp_all add: filling_kernel_def slow_manager_facts)
  have b: "send_outcome (blocked_kernel 5) = Would_block"
    by (simp add: blocked_kernel_def)
  from slow_flag_sticky [OF slow_manager_facts(1), of filling_kernel 20 0 0] f
  have 1: "\<not> is_slow (the (find_client (fst (snd (send_to_client filling_kernel 5 20 slow_manager))) 5))"
    by (auto simp: slow_manager_facts)
  from slow_flag_sticky [OF slow_manager_facts(1), of blocked_kernel 20 0 0] b
  have 2: "is_slow (the (find_client (fst (snd (send_to_client blocked_kernel 5 20 slow_manager))) 5))"
    by auto
  from 1 2 f b show ?thesis by (simp add: slow_manager_facts)
qed

end
